theory Spec2Isabelle
  imports Complex_Main "HOL-Library.Monad_Syntax"
begin


section \<open>Scalars, template parameters and collaborator primitives\<close>

text \<open>
  The kernel \<^verbatim>\<open>ei_product_selfadjoint_vector\<close> of
  \<^verbatim>\<open>Eigen/src/Core/products/SelfadjointMatrixVector.h\<close> is a template over the
  scalar type, of which it uses the sum, the product and the literal \<open>0\<close>. The model is
  polymorphic in the same way: it runs on any type with \<open>+\<close>, \<open>*\<close> and \<open>0\<close>, be its arithmetic
  exact (\<open>int\<close>, \<open>real\<close>, \<open>complex\<close>) or rounded (\<open>double\<close> below). What the kernel takes
  from declarations outside the file (\<^verbatim>\<open>NumTraits<Scalar>::IsComplex\<close>, \<^verbatim>\<open>ei_conj\<close> and
  the lane count \<^verbatim>\<open>sizeof(Packet)/sizeof(Scalar)\<close> of \<^verbatim>\<open>ei_packet_traits\<close>) is a
  parameter.
\<close>

record 'a scalar_traits =
  IsComplex :: bool
  ei_conj :: "'a \<Rightarrow> 'a"
  PacketSize :: nat

text \<open>
  Modelled from the spec: \<^verbatim>\<open>NumTraits\<close> and \<^verbatim>\<open>ei_conj\<close> are declared outside the
  file. For a real scalar type the conjugate is the identity ("\<open>A[j][i]\<close> for the
  real/symmetric case") and \<^verbatim>\<open>IsComplex\<close> is false; for complex scalars it is the
  complex conjugate.
\<close>

definition real_traits :: "nat \<Rightarrow> 'a scalar_traits" where
  "real_traits P = \<lparr>IsComplex = False, ei_conj = (\<lambda>x. x), PacketSize = P\<rparr>"

definition complex_traits :: "nat \<Rightarrow> complex scalar_traits" where
  "complex_traits P = \<lparr>IsComplex = True, ei_conj = cnj, PacketSize = P\<rparr>"

text \<open>
  Modelled from IEEE 754: the scalar type \<^verbatim>\<open>double\<close> is a type of the language, not of
  the file. Its values are those of the binary64 format and its sum and product are
  correctly rounded, to nearest with ties to even, as the kernel's \<^verbatim>\<open>+\<close> and \<^verbatim>\<open>*\<close> are
  on the platforms it is compiled for. \<open>Finite s m e\<close> is the value \<open>m * 2^e\<close>, negated when
  \<open>s\<close> holds, kept with \<open>m\<close> odd (zero is \<open>Finite s 0 0\<close>, with its sign), so that a value has one
  representation; a NaN carries no payload.
\<close>

datatype double = Finite bool int int | Infinite bool | NaN

text \<open>The number of binary digits of a positive integer.\<close>

function bit_length :: "int \<Rightarrow> int" where
  "bit_length m = (if m \<le> 0 then 0 else 1 + bit_length (m div 2))"
  by pat_completeness auto
termination
  by (relation "measure nat") auto

text \<open>The representation with an odd significand.\<close>

function odd_significand :: "int \<Rightarrow> int \<Rightarrow> int \<times> int" where
  "odd_significand m e =
     (if m \<le> 0 then (0, 0)
      else if even m then odd_significand (m div 2) (e + 1) else (m, e))"
  by pat_completeness auto
termination
  by (relation "measure (\<lambda>(m, e). nat m)") auto

text \<open>
  The binary64 value nearest to \<open>m * 2^e\<close> (negated when \<open>s\<close> holds), for \<open>m \<ge> 0\<close>. The
  result is a multiple of \<open>2^q\<close>, where \<open>q\<close> leaves 53 binary digits to the significand and is
  at least the exponent -1074 of the smallest subnormal; a tie goes to the even multiple;
  a rounded value of \<open>2^1024\<close> or more is an infinity.
\<close>

definition round_double :: "bool \<Rightarrow> int \<Rightarrow> int \<Rightarrow> double" where
  "round_double s m e =
    (let q = max (bit_length m + e - 53) (- 1074);
         k = nat (q - e);
         d = m div 2 ^ k;
         r = m mod 2 ^ k;
         (m', e') = (if q \<le> e then (m, e)
                     else if 2 * r < 2 ^ k \<or> (2 * r = 2 ^ k \<and> even d) then (d, q)
                     else (d + 1, q))
     in if 1024 < bit_length m' + e' then Infinite s
        else case odd_significand m' e' of (m'', e'') \<Rightarrow> Finite s m'' e'')"

text \<open>The double nearest to \<open>m * 2^e\<close>: a literal.\<close>

definition dbl :: "int \<Rightarrow> int \<Rightarrow> double" where
  "dbl m e = round_double (m < 0) \<bar>m\<bar> e"

text \<open>
  The sum: exact, then rounded. An exact sum of zero is \<open>+0\<close>, unless both terms are
  \<open>-0\<close>; infinities of opposite signs give a NaN.
\<close>

fun add_double :: "double \<Rightarrow> double \<Rightarrow> double" where
  "add_double (Finite s m e) (Finite t n f) =
    (let g = min e f;
         a = (if s then - m else m) * 2 ^ nat (e - g) + (if t then - n else n) * 2 ^ nat (f - g)
     in if a = 0 then Finite (s \<and> t) 0 0 else round_double (a < 0) \<bar>a\<bar> g)"
| "add_double (Finite s m e) (Infinite t) = Infinite t"
| "add_double (Infinite s) (Finite t n f) = Infinite s"
| "add_double (Infinite s) (Infinite t) = (if s = t then Infinite s else NaN)"
| "add_double NaN y = NaN"
| "add_double x NaN = NaN"

text \<open>
  The product: exact, then rounded, with the sign of the factors' signs; zero times an
  infinity is a NaN.
\<close>

fun mul_double :: "double \<Rightarrow> double \<Rightarrow> double" where
  "mul_double (Finite s m e) (Finite t n f) = round_double (s \<noteq> t) (m * n) (e + f)"
| "mul_double (Finite s m e) (Infinite t) = (if m = 0 then NaN else Infinite (s \<noteq> t))"
| "mul_double (Infinite s) (Finite t n f) = (if n = 0 then NaN else Infinite (s \<noteq> t))"
| "mul_double (Infinite s) (Infinite t) = Infinite (s \<noteq> t)"
| "mul_double NaN y = NaN"
| "mul_double x NaN = NaN"

instantiation double :: "{zero, plus, times}"
begin

definition zero_double :: double where
  "zero_double = Finite False 0 0"

definition plus_double :: "double \<Rightarrow> double \<Rightarrow> double" where
  "plus_double = add_double"

definition times_double :: "double \<Rightarrow> double \<Rightarrow> double" where
  "times_double = mul_double"

instance ..

end

datatype StorageOrder = ColMajor | RowMajor

datatype UpLo = UpperTriangular | LowerTriangular

text \<open>The two flags of an \<^verbatim>\<open>ei_conj_helper<ConjLhs, ConjRhs>\<close>.\<close>

type_synonym conj_helper = "bool \<times> bool"

text \<open>
  Modelled from the spec: \<^verbatim>\<open>ei_conj_helper\<close> is declared outside the file. The spec
  describes a "conjugate helper" that applies the scalar conjugate to a factor at a use
  site when its flag is set, with multiply and multiply-add: \<open>pmul x y\<close> is the product
  of the two factors, each conjugated when its flag says so, and \<open>pmadd x y c\<close> adds
  that product to \<open>c\<close>.
\<close>

definition pmul :: "'a scalar_traits \<Rightarrow> conj_helper \<Rightarrow> 'a::{plus,times,zero} \<Rightarrow> 'a \<Rightarrow> 'a" where
  "pmul T cj x y =
     (if fst cj then ei_conj T x else x) * (if snd cj then ei_conj T y else y)"

definition pmadd :: "'a scalar_traits \<Rightarrow> conj_helper \<Rightarrow> 'a::{plus,times,zero} \<Rightarrow> 'a \<Rightarrow> 'a \<Rightarrow> 'a" where
  "pmadd T cj x y c = c + pmul T cj x y"

text \<open>
  Modelled from the spec: the SIMD register abstraction is declared outside the file. A
  packet is a list of \<open>PacketSize\<close> lanes with broadcast, unaligned load, aligned load,
  aligned store, lane-wise multiply-add and horizontal sum. A load or store that leaves
  its buffer, and an aligned access at an address that is not a multiple of the lane
  count, is a fault (\<open>None\<close>). Addresses are counted in scalars.
\<close>

type_synonym 'a Packet = "'a list"

definition ei_pset1 :: "nat \<Rightarrow> 'a \<Rightarrow> 'a Packet" where
  "ei_pset1 P t = replicate P t"

definition ei_ploadu :: "nat \<Rightarrow> 'a list \<Rightarrow> nat \<Rightarrow> 'a Packet option" where
  "ei_ploadu P buf k = (if k + P \<le> length buf then Some (take P (drop k buf)) else None)"

definition ei_pload :: "nat \<Rightarrow> nat \<Rightarrow> 'a list \<Rightarrow> nat \<Rightarrow> 'a Packet option" where
  "ei_pload P addr buf k = (if (addr + k) mod P = 0 then ei_ploadu P buf k else None)"

definition ei_pstore :: "nat \<Rightarrow> nat \<Rightarrow> 'a list \<Rightarrow> nat \<Rightarrow> 'a Packet \<Rightarrow> 'a list option" where
  "ei_pstore P addr buf k pk =
     (if (addr + k) mod P = 0 \<and> k + P \<le> length buf \<and> length pk = P
      then Some (take k buf @ pk @ drop (k + P) buf) else None)"

definition ei_predux :: "'a::{plus,times,zero} Packet \<Rightarrow> 'a" where
  "ei_predux pk = foldr (+) pk 0"

definition pmadd_packet ::
  "'a scalar_traits \<Rightarrow> conj_helper \<Rightarrow> 'a::{plus,times,zero} Packet \<Rightarrow> 'a Packet \<Rightarrow> 'a Packet \<Rightarrow> 'a Packet" where
  "pmadd_packet T cj xs ys cs = map (\<lambda>(x, y, c). pmadd T cj x y c) (zip xs (zip ys cs))"

text \<open>
  Modelled from the spec: \<^verbatim>\<open>ei_alignmentOffset\<close> is declared outside the file. The
  spec's glossary: "the number of leading elements needed, starting from a given
  address, to reach the next address satisfying the hardware's vector alignment
  requirement"; it is capped by its second argument, and is zero without vectorization.
\<close>

definition ei_alignmentOffset :: "nat \<Rightarrow> nat \<Rightarrow> nat \<Rightarrow> nat" where
  "ei_alignmentOffset P addr maxOffset =
     (if 1 < P then min ((P - addr mod P) mod P) maxOffset else 0)"

section \<open>Memory accesses and the loop combinator\<close>

text \<open>A read of \<open>buf[k]\<close> and the update \<open>res[k] += v\<close>; out of bounds is a fault.\<close>

definition rd :: "'a list \<Rightarrow> nat \<Rightarrow> 'a option" where
  "rd buf k = (if k < length buf then Some (buf ! k) else None)"

definition add_at :: "'a::{plus,times,zero} list \<Rightarrow> nat \<Rightarrow> 'a \<Rightarrow> 'a list option" where
  "add_at res k v = (if k < length res then Some (res[k := res ! k + v]) else None)"

text \<open>
  The product \<^verbatim>\<open>j*lhsStride\<close> of two non-negative \<^verbatim>\<open>int\<close>s (lines 73, 74 and 141), with
  \<^verbatim>\<open>int\<close> of 32 bits: a product that does not fit is undefined behaviour in the source and
  a fault here. Adding the product to the pointer \<^verbatim>\<open>lhs\<close> is pointer arithmetic, which is
  bounded by the buffer only.
\<close>

definition int_mul :: "nat \<Rightarrow> nat \<Rightarrow> nat option" where
  "int_mul a b = (if int a * int b < 2 ^ 31 then Some (a * b) else None)"

text \<open>
  \<^verbatim>\<open>for (i = i0; i < n; i += step) body\<close> over a state; a fault in the body ends the
  loop with the fault, and a loop that is entered with step 0 never ends.
\<close>

function for_loop :: "nat \<Rightarrow> nat \<Rightarrow> nat \<Rightarrow> (nat \<Rightarrow> 's \<Rightarrow> 's option) \<Rightarrow> 's \<Rightarrow> 's option" where
  "for_loop step i n body s =
     (if i < n then
        (if step = 0 then None
         else case body i s of None \<Rightarrow> None | Some s' \<Rightarrow> for_loop step (i + step) n body s')
      else Some s)"
  by pat_completeness auto
termination
  by (relation "measure (\<lambda>(step, i, n, body, s). n - i)") auto

declare for_loop.simps [simp del]

section \<open>The kernel\<close>

text \<open>Lines 105-110: the unaligned scalar head of the inner range.\<close>

definition head_body ::
  "'a scalar_traits \<Rightarrow> 'a::{plus,times,zero} list \<Rightarrow> nat \<Rightarrow> nat \<Rightarrow> 'a list \<Rightarrow> 'a \<Rightarrow> 'a \<Rightarrow> nat \<Rightarrow>
   'a list \<times> 'a \<times> 'a \<Rightarrow> ('a list \<times> 'a \<times> 'a) option" where
  "head_body T lhs A0 A1 rhs t0 t1 i = (\<lambda>(res, t2, t3). do {
     a0 \<leftarrow> rd lhs (A0 + i);
     a1 \<leftarrow> rd lhs (A1 + i);
     res \<leftarrow> add_at res i (t0 * a0 + t1 * a1);
     b \<leftarrow> rd rhs i;
     Some (res, t2 + ei_conj T a0 * b, t3 + ei_conj T a1 * b) })"

text \<open>Lines 117-128: the vectorized body of the inner range.\<close>

definition packet_body ::
  "'a scalar_traits \<Rightarrow> conj_helper \<Rightarrow> conj_helper \<Rightarrow> 'a::{plus,times,zero} list \<Rightarrow> nat \<Rightarrow> nat \<Rightarrow>
   'a list \<Rightarrow> nat \<Rightarrow> 'a Packet \<Rightarrow> 'a Packet \<Rightarrow> nat \<Rightarrow>
   'a list \<times> 'a Packet \<times> 'a Packet \<Rightarrow> ('a list \<times> 'a Packet \<times> 'a Packet) option" where
  "packet_body T cj0 cj1 lhs A0 A1 rhs resAddr ptmp0 ptmp1 i = (\<lambda>(res, ptmp2, ptmp3). do {
     A0i \<leftarrow> ei_ploadu (PacketSize T) lhs (A0 + i);
     A1i \<leftarrow> ei_ploadu (PacketSize T) lhs (A1 + i);
     Bi \<leftarrow> ei_ploadu (PacketSize T) rhs i;
     Xi \<leftarrow> ei_pload (PacketSize T) resAddr res i;
     let Xi = pmadd_packet T cj0 A0i ptmp0 (pmadd_packet T cj0 A1i ptmp1 Xi);
     let ptmp2 = pmadd_packet T cj1 A0i Bi ptmp2;
     let ptmp3 = pmadd_packet T cj1 A1i Bi ptmp3;
     res \<leftarrow> ei_pstore (PacketSize T) resAddr res i Xi;
     Some (res, ptmp2, ptmp3) })"

text \<open>Lines 129-134: the scalar tail of the inner range.\<close>

definition tail_body ::
  "'a scalar_traits \<Rightarrow> conj_helper \<Rightarrow> conj_helper \<Rightarrow> 'a::{plus,times,zero} list \<Rightarrow> nat \<Rightarrow> nat \<Rightarrow>
   'a list \<Rightarrow> 'a \<Rightarrow> 'a \<Rightarrow> nat \<Rightarrow> 'a list \<times> 'a \<times> 'a \<Rightarrow> ('a list \<times> 'a \<times> 'a) option" where
  "tail_body T cj0 cj1 lhs A0 A1 rhs t0 t1 i = (\<lambda>(res, t2, t3). do {
     a0 \<leftarrow> rd lhs (A0 + i);
     a1 \<leftarrow> rd lhs (A1 + i);
     res \<leftarrow> add_at res i (pmul T cj0 a0 t0 + pmul T cj0 a1 t1);
     b \<leftarrow> rd rhs i;
     Some (res, t2 + pmul T cj1 a0 b, t3 + pmul T cj1 a1 b) })"

text \<open>Lines 92-103: the 2x2 diagonal block of the columns \<open>j\<close>, \<open>j+1\<close>.\<close>

definition block_diag ::
  "'a scalar_traits \<Rightarrow> bool \<Rightarrow> conj_helper \<Rightarrow> conj_helper \<Rightarrow> 'a::{plus,times,zero} list \<Rightarrow> nat \<Rightarrow> nat \<Rightarrow>
   'a list \<Rightarrow> 'a \<Rightarrow> 'a \<Rightarrow> nat \<Rightarrow> 'a list \<times> 'a \<times> 'a \<Rightarrow> ('a list \<times> 'a \<times> 'a) option" where
  "block_diag T FirstTriangular cj0 cj1 lhs A0 A1 rhs t0 t1 j = (\<lambda>(res, t2, t3). do {
     a00 \<leftarrow> rd lhs (A0 + j);
     res \<leftarrow> add_at res j (pmul T cj0 a00 t0);
     if FirstTriangular then do {
       a11 \<leftarrow> rd lhs (A1 + (j + 1));
       res \<leftarrow> add_at res (j + 1) (pmul T cj0 a11 t1);
       a10 \<leftarrow> rd lhs (A1 + j);
       res \<leftarrow> add_at res j (pmul T cj0 a10 t1);
       r0 \<leftarrow> rd rhs j;
       Some (res, t2, t3 + pmul T cj1 a10 r0) }
     else do {
       a01 \<leftarrow> rd lhs (A0 + (j + 1));
       a11 \<leftarrow> rd lhs (A1 + (j + 1));
       res \<leftarrow> add_at res (j + 1) (pmul T cj0 a01 t0 + pmul T cj0 a11 t1);
       r1 \<leftarrow> rd rhs (j + 1);
       Some (res, t2 + pmul T cj1 a01 r1, t3) } })"

text \<open>
  Lines 105-137: the three phases of the inner range (scalar head, vectorized body,
  scalar tail) and the final update of \<open>res[j]\<close> and \<open>res[j+1]\<close>.
\<close>

definition block_inner ::
  "'a scalar_traits \<Rightarrow> conj_helper \<Rightarrow> conj_helper \<Rightarrow> 'a::{plus,times,zero} list \<Rightarrow> nat \<Rightarrow> nat \<Rightarrow>
   'a list \<Rightarrow> nat \<Rightarrow> 'a \<Rightarrow> 'a \<Rightarrow> 'a Packet \<Rightarrow> 'a Packet \<Rightarrow> 'a \<Rightarrow> nat \<Rightarrow>
   nat \<Rightarrow> nat \<Rightarrow> nat \<Rightarrow> nat \<Rightarrow> 'a Packet \<Rightarrow> 'a Packet \<Rightarrow>
   'a list \<times> 'a \<times> 'a \<Rightarrow> 'a list option" where
  "block_inner T cj0 cj1 lhs A0 A1 rhs resAddr t0 t1 ptmp0 ptmp1 alpha j
      starti alignedStart alignedEnd endi ptmp2 ptmp3 = (\<lambda>(res, t2, t3). do {
     (res, t2, t3) \<leftarrow> for_loop 1 starti alignedStart (head_body T lhs A0 A1 rhs t0 t1) (res, t2, t3);
     (res, ptmp2, ptmp3) \<leftarrow> for_loop (PacketSize T) alignedStart alignedEnd
        (packet_body T cj0 cj1 lhs A0 A1 rhs resAddr ptmp0 ptmp1) (res, ptmp2, ptmp3);
     (res, t2, t3) \<leftarrow> for_loop 1 alignedEnd endi (tail_body T cj0 cj1 lhs A0 A1 rhs t0 t1) (res, t2, t3);
     res \<leftarrow> add_at res j (alpha * (t2 + ei_predux ptmp2));
     add_at res (j + 1) (alpha * (t3 + ei_predux ptmp3)) })"

text \<open>Lines 72-138: one iteration of the two-column loop, for the columns \<open>j\<close>, \<open>j+1\<close>.\<close>

definition block_body ::
  "'a scalar_traits \<Rightarrow> bool \<Rightarrow> conj_helper \<Rightarrow> conj_helper \<Rightarrow> nat \<Rightarrow> 'a::{plus,times,zero} list \<Rightarrow> nat \<Rightarrow>
   'a list \<Rightarrow> nat \<Rightarrow> 'a \<Rightarrow> 'a \<Rightarrow> nat \<Rightarrow> 'a list \<Rightarrow> 'a list option" where
  "block_body T FirstTriangular cj0 cj1 sz lhs lhsStride rhs resAddr alpha cjAlpha j res = do {
     A0 \<leftarrow> int_mul j lhsStride;
     A1 \<leftarrow> int_mul (j + 1) lhsStride;
     r0 \<leftarrow> rd rhs j;
     let t0 = cjAlpha * r0;
     let ptmp0 = ei_pset1 (PacketSize T) t0;
     r1 \<leftarrow> rd rhs (j + 1);
     let t1 = cjAlpha * r1;
     let ptmp1 = ei_pset1 (PacketSize T) t1;
     let t2 = 0;
     let ptmp2 = ei_pset1 (PacketSize T) t2;
     let t3 = 0;
     let ptmp3 = ei_pset1 (PacketSize T) t3;
     let starti = (if FirstTriangular then 0 else j + 2);
     let endi = (if FirstTriangular then j else sz);
     let alignedStart = starti + ei_alignmentOffset (PacketSize T) (resAddr + starti) (endi - starti);
     alignedEnd \<leftarrow> (if PacketSize T = 0 then None
        else Some (alignedStart + ((endi - alignedStart) div PacketSize T) * PacketSize T));
     s \<leftarrow> block_diag T FirstTriangular cj0 cj1 lhs A0 A1 rhs t0 t1 j (res, t2, t3);
     block_inner T cj0 cj1 lhs A0 A1 rhs resAddr t0 t1 ptmp0 ptmp1 alpha j
       starti alignedStart alignedEnd endi ptmp2 ptmp3 s }"

text \<open>Lines 146-149: the inner loop of the single-column fallback.\<close>

definition column_inner ::
  "'a scalar_traits \<Rightarrow> conj_helper \<Rightarrow> conj_helper \<Rightarrow> 'a::{plus,times,zero} list \<Rightarrow> nat \<Rightarrow> 'a list \<Rightarrow> 'a \<Rightarrow>
   nat \<Rightarrow> 'a list \<times> 'a \<Rightarrow> ('a list \<times> 'a) option" where
  "column_inner T cj0 cj1 lhs A0 rhs t1 i = (\<lambda>(res, t2). do {
     a0 \<leftarrow> rd lhs (A0 + i);
     res \<leftarrow> add_at res i (pmul T cj0 a0 t1);
     b \<leftarrow> rd rhs i;
     Some (res, t2 + pmul T cj1 a0 b) })"

text \<open>Lines 140-151: one iteration of the single-column loop.\<close>

definition column_body ::
  "'a scalar_traits \<Rightarrow> bool \<Rightarrow> conj_helper \<Rightarrow> conj_helper \<Rightarrow> nat \<Rightarrow> 'a::{plus,times,zero} list \<Rightarrow> nat \<Rightarrow>
   'a list \<Rightarrow> 'a \<Rightarrow> 'a \<Rightarrow> nat \<Rightarrow> 'a list \<Rightarrow> 'a list option" where
  "column_body T FirstTriangular cj0 cj1 sz lhs lhsStride rhs alpha cjAlpha j res = do {
     A0 \<leftarrow> int_mul j lhsStride;
     r \<leftarrow> rd rhs j;
     let t1 = cjAlpha * r;
     let t2 = 0;
     a \<leftarrow> rd lhs (A0 + j);
     res \<leftarrow> add_at res j (pmul T cj0 a t1);
     (res, t2) \<leftarrow> for_loop 1 (if FirstTriangular then 0 else j + 1) (if FirstTriangular then j else sz)
        (column_inner T cj0 cj1 lhs A0 rhs t1) (res, t2);
     add_at res j (alpha * t2) }"

text \<open>Lines 59-63: the copy of a strided operand into the scratch buffer.\<close>

definition copy_rhs :: "nat \<Rightarrow> 'a::{plus,times,zero} list \<Rightarrow> nat \<Rightarrow> 'a list option" where
  "copy_rhs sz rhs' rhsIncr =
     for_loop 1 0 sz (\<lambda>i r. do { v \<leftarrow> rd rhs' (i * rhsIncr); Some (r[i := v]) })
       (replicate sz 0)"

text \<open>Line 66: \<^verbatim>\<open>std::max(0,size-8) & 0xfffffffE\<close>.\<close>

definition blocked_span :: "nat \<Rightarrow> nat" where
  "blocked_span sz = nat (and (max 0 (int sz - 8)) 0xfffffffE)"

text \<open>
  Lines 66-151: the bound between the two column ranges, the two-column loop and the
  single-column loop, over the contiguous operand.
\<close>

definition product_columns ::
  "'a scalar_traits \<Rightarrow> bool \<Rightarrow> conj_helper \<Rightarrow> conj_helper \<Rightarrow> nat \<Rightarrow> 'a::{plus,times,zero} list \<Rightarrow> nat \<Rightarrow>
   'a list \<Rightarrow> nat \<Rightarrow> 'a \<Rightarrow> 'a \<Rightarrow> 'a list \<Rightarrow> 'a list option" where
  "product_columns T FirstTriangular cj0 cj1 sz lhs lhsStride rhs resAddr alpha cjAlpha res = do {
     let bound = blocked_span sz;
     let bound = (if FirstTriangular then sz - bound else bound);
     res \<leftarrow> for_loop 2 (if FirstTriangular then bound else 0) (if FirstTriangular then sz else bound)
        (block_body T FirstTriangular cj0 cj1 sz lhs lhsStride rhs resAddr alpha cjAlpha) res;
     for_loop 1 (if FirstTriangular then 0 else bound) (if FirstTriangular then bound else sz)
        (column_body T FirstTriangular cj0 cj1 sz lhs lhsStride rhs alpha cjAlpha) res }"

datatype scratch_event = StackNew nat | StackDelete nat

text \<open>
  Lines 34-155. The size and the strides are non-negative \<^verbatim>\<open>int\<close>s in the source and
  natural numbers here (the behaviour for a negative size is undefined in the source);
  where the source multiplies two of them the product has to fit \<^verbatim>\<open>int\<close>. \<open>resAddr\<close> is the
  address of \<open>res[0]\<close>, which decides the alignment. The result is the accumulator and
  the scratch buffer's allocations and releases, in order.
\<close>

definition ei_product_selfadjoint_vector ::
  "'a scalar_traits \<Rightarrow> StorageOrder \<Rightarrow> UpLo \<Rightarrow> bool \<Rightarrow> bool \<Rightarrow> nat \<Rightarrow> 'a::{plus,times,zero} list \<Rightarrow> nat \<Rightarrow>
   'a list \<Rightarrow> nat \<Rightarrow> 'a list \<Rightarrow> nat \<Rightarrow> 'a \<Rightarrow> ('a list \<times> scratch_event list) option" where
  "ei_product_selfadjoint_vector T StorageOrder UpLo ConjugateLhs ConjugateRhs
      sz lhs lhsStride rhs' rhsIncr res resAddr alpha = do {
     let IsRowMajor = (StorageOrder = RowMajor);
     let IsLower = (UpLo = LowerTriangular);
     let FirstTriangular = (IsRowMajor = IsLower);
     let cj0 = (IsComplex T \<and> (ConjugateLhs \<noteq> IsRowMajor), ConjugateRhs);
     let cj1 = (IsComplex T \<and> (ConjugateLhs \<noteq> (\<not> IsRowMajor)), ConjugateRhs);
     let cjAlpha = (if ConjugateRhs then ei_conj T alpha else alpha);
     (rhs, heap) \<leftarrow> (if rhsIncr \<noteq> 1
        then do { r \<leftarrow> copy_rhs sz rhs' rhsIncr; Some (r, [StackNew sz]) }
        else Some (rhs', []));
     res \<leftarrow> product_columns T FirstTriangular cj0 cj1 sz lhs lhsStride rhs resAddr alpha cjAlpha res;
     Some (res, if rhsIncr \<noteq> 1 then heap @ [StackDelete sz] else heap) }"

section \<open>The dispatch wrapper\<close>

text \<open>
  Lines 178-197, \<^verbatim>\<open>SelfadjointProductMatrix::scaleAndAddTo\<close>. What
  \<^verbatim>\<open>ei_blas_traits\<close> (declared outside the file) extracts from an operand expression is
  a field of the operand: the plain matrix or vector behind it, its embedded scalar
  factor and whether it has to be conjugated. \<^verbatim>\<open>ei_assert\<close> is modelled with
  assertions enabled. The outcome carries the destination and the log of the kernel
  invocations.
\<close>

record 'a lhs_operand =
  lhs_rows :: nat
  lhs_coeffs :: "'a list"
  lhs_stride :: nat
  lhs_order :: StorageOrder
  lhs_scalar_factor :: 'a
  lhs_need_to_conjugate :: bool

record 'a rhs_operand =
  rhs_cols :: nat
  rhs_coeffs :: "'a list"
  rhs_incr :: nat
  rhs_scalar_factor :: 'a
  rhs_need_to_conjugate :: bool

record 'a destination =
  dst_rows :: nat
  dst_cols :: nat
  dst_coeffs :: "'a list"
  dst_addr :: nat
  dst_incr :: nat

record 'a kernel_call =
  call_order :: StorageOrder
  call_uplo :: UpLo
  call_conjugate_lhs :: bool
  call_conjugate_rhs :: bool
  call_size :: nat
  call_lhs_stride :: nat
  call_rhs_incr :: nat
  call_alpha :: 'a

datatype wrapper_error = AssertionFailed | KernelFault

definition scaleAndAddTo ::
  "'a scalar_traits \<Rightarrow> UpLo \<Rightarrow> 'a::{plus,times,zero} lhs_operand \<Rightarrow> 'a rhs_operand \<Rightarrow> 'a destination \<Rightarrow> 'a \<Rightarrow>
   wrapper_error + ('a destination \<times> 'a kernel_call list)" where
  "scaleAndAddTo T LhsUpLo m_lhs m_rhs dst alpha =
    (if \<not> (dst_rows dst = lhs_rows m_lhs \<and> dst_cols dst = rhs_cols m_rhs) then Inl AssertionFailed
     else
       let actualAlpha = alpha * lhs_scalar_factor m_lhs * rhs_scalar_factor m_rhs
       in if \<not> dst_incr dst = 1 then Inl AssertionFailed
          else
            (case ei_product_selfadjoint_vector T (lhs_order m_lhs) LhsUpLo
                    (lhs_need_to_conjugate m_lhs) (rhs_need_to_conjugate m_rhs)
                    (lhs_rows m_lhs) (lhs_coeffs m_lhs) (lhs_stride m_lhs)
                    (rhs_coeffs m_rhs) (rhs_incr m_rhs)
                    (dst_coeffs dst) (dst_addr dst) actualAlpha of
               None \<Rightarrow> Inl KernelFault
             | Some (res, heap) \<Rightarrow>
                 Inr (dst\<lparr>dst_coeffs := res\<rparr>,
                      [\<lparr>call_order = lhs_order m_lhs, call_uplo = LhsUpLo,
                        call_conjugate_lhs = lhs_need_to_conjugate m_lhs,
                        call_conjugate_rhs = rhs_need_to_conjugate m_rhs,
                        call_size = lhs_rows m_lhs, call_lhs_stride = lhs_stride m_lhs,
                        call_rhs_incr = rhs_incr m_rhs, call_alpha = actualAlpha\<rparr>])))"

section \<open>Specification\<close>

subsection \<open>Valid calls and the dense reference\<close>

text \<open>
  A valid call: at least one lane; a size, a leading dimension and an operand stride that
  are values of \<^verbatim>\<open>int\<close>, and so is the offset \<open>(size - 1) * lhsStride\<close> of the last row (or
  column), the largest product of lines 73, 74 and 141; a matrix buffer that holds \<open>size\<close>
  rows (or columns) of \<open>size\<close> entries at the leading dimension, an operand buffer that
  holds \<open>size\<close> entries at its stride, and an accumulator of at least \<open>size\<close> entries.
\<close>

definition valid_call ::
  "'a scalar_traits \<Rightarrow> nat \<Rightarrow> 'a list \<Rightarrow> nat \<Rightarrow> 'a list \<Rightarrow> nat \<Rightarrow> 'a list \<Rightarrow> bool" where
  "valid_call T sz lhs lhsStride rhs' rhsIncr res \<longleftrightarrow>
     0 < PacketSize T \<and>
     sz < 2 ^ 31 \<and> lhsStride < 2 ^ 31 \<and> rhsIncr < 2 ^ 31 \<and> (sz - 1) * lhsStride < 2 ^ 31 \<and>
     (sz = 0 \<or> (sz - 1) * lhsStride + sz \<le> length lhs) \<and>
     (sz = 0 \<or> (sz - 1) * rhsIncr < length rhs') \<and>
     sz \<le> length res"

text \<open>
  The same for the loop nest, whose operand is contiguous.
\<close>

definition buffers_ok :: "nat \<Rightarrow> 'a list \<Rightarrow> nat \<Rightarrow> 'a list \<Rightarrow> 'a list \<Rightarrow> bool" where
  "buffers_ok sz lhs lhsStride rhs res \<longleftrightarrow>
     sz < 2 ^ 31 \<and> (sz - 1) * lhsStride < 2 ^ 31 \<and>
     (sz = 0 \<or> (sz - 1) * lhsStride + sz \<le> length lhs) \<and>
     sz \<le> length rhs \<and> sz \<le> length res"

text \<open>
  The operand the loop nest reads: the scratch copy of the strided elements, or the buffer
  itself when the stride is 1.
\<close>

definition operand :: "nat \<Rightarrow> 'a list \<Rightarrow> nat \<Rightarrow> 'a list" where
  "operand sz rhs' rhsIncr =
     (if rhsIncr \<noteq> 1 then map (\<lambda>i. rhs' ! (i * rhsIncr)) [0..<sz] else rhs')"

text \<open>
  The de-interleaved values of an operand of stride 2.
\<close>

definition deinterleaved :: "nat \<Rightarrow> 'a list \<Rightarrow> 'a list" where
  "deinterleaved sz rhs' = map (\<lambda>i. rhs' ! (i * 2)) [0..<sz]"

text \<open>
  The scratch buffer's events of a call that returns.
\<close>

definition scratch_trace :: "nat \<Rightarrow> nat \<Rightarrow> scratch_event list" where
  "scratch_trace sz rhsIncr = (if rhsIncr \<noteq> 1 then [StackNew sz, StackDelete sz] else [])"

text \<open>
  The stored triangle, diagonal included, in logical coordinates (row \<open>i\<close>, column \<open>j\<close>).
\<close>

definition in_triangle :: "UpLo \<Rightarrow> nat \<Rightarrow> nat \<Rightarrow> bool" where
  "in_triangle uplo i j = (case uplo of LowerTriangular \<Rightarrow> j \<le> i | UpperTriangular \<Rightarrow> i \<le> j)"

text \<open>
  Where the logical entry \<open>(i, j)\<close> lies in the matrix buffer.
\<close>

definition lhs_index :: "StorageOrder \<Rightarrow> nat \<Rightarrow> nat \<Rightarrow> nat \<Rightarrow> nat" where
  "lhs_index order lhsStride i j =
     (case order of RowMajor \<Rightarrow> i * lhsStride + j | ColMajor \<Rightarrow> j * lhsStride + i)"

text \<open>
  Two matrix buffers that agree on the stored triangle.
\<close>

definition agree_on_triangle ::
  "StorageOrder \<Rightarrow> UpLo \<Rightarrow> nat \<Rightarrow> nat \<Rightarrow> 'a list \<Rightarrow> 'a list \<Rightarrow> bool" where
  "agree_on_triangle order uplo sz lhsStride lhs lhs' \<longleftrightarrow>
     (\<forall>i<sz. \<forall>j<sz. in_triangle uplo i j \<longrightarrow>
        lhs ! lhs_index order lhsStride i j = lhs' ! lhs_index order lhsStride i j)"

text \<open>
  What the proofs use of the scalar conjugate: it is an involution, it is multiplicative, and
  it is the identity for a scalar type that is not complex.
\<close>

definition conj_ok :: "'a::comm_ring_1 scalar_traits \<Rightarrow> bool" where
  "conj_ok T \<longleftrightarrow>
     (\<forall>x. ei_conj T (ei_conj T x) = x) \<and>
     (\<forall>x y. ei_conj T (x * y) = ei_conj T x * ei_conj T y) \<and>
     (\<not> IsComplex T \<longrightarrow> (\<forall>x. ei_conj T x = x))"

text \<open>
  A self-adjoint matrix has a self-conjugate diagonal.
\<close>

definition real_diagonal :: "'a scalar_traits \<Rightarrow> nat \<Rightarrow> 'a list \<Rightarrow> nat \<Rightarrow> bool" where
  "real_diagonal T sz lhs lhsStride \<longleftrightarrow>
     (\<forall>j<sz. ei_conj T (lhs ! (j * lhsStride + j)) = lhs ! (j * lhsStride + j))"

text \<open>
  The logical matrix behind the stored triangle, as the spec defines it: a stored entry is
  read from the buffer (conjugated first when the matrix is flagged conjugated), an entry
  outside the stored triangle is the conjugate of its mirror image.
\<close>

definition selfadjoint_coeff ::
  "'a scalar_traits \<Rightarrow> StorageOrder \<Rightarrow> UpLo \<Rightarrow> bool \<Rightarrow> 'a list \<Rightarrow> nat \<Rightarrow> nat \<Rightarrow> nat \<Rightarrow> 'a" where
  "selfadjoint_coeff T order uplo ConjugateLhs lhs lhsStride i j =
    (let stored = (\<lambda>i j. if ConjugateLhs then ei_conj T (lhs ! lhs_index order lhsStride i j)
                          else lhs ! lhs_index order lhsStride i j)
     in if in_triangle uplo i j then stored i j else ei_conj T (stored j i))"

text \<open>
  The operand entry, conjugated when the operand is flagged conjugated.
\<close>

definition operand_coeff :: "'a scalar_traits \<Rightarrow> bool \<Rightarrow> 'a list \<Rightarrow> nat \<Rightarrow> 'a" where
  "operand_coeff T ConjugateRhs rhs j = (if ConjugateRhs then ei_conj T (rhs ! j) else rhs ! j)"

text \<open>
  The naive reference of the spec: \<open>res[i] += alpha * sum_j A[i][j] * x[j]\<close> for
  \<open>i < size\<close>, the rest of the accumulator untouched.
\<close>

definition dense_reference ::
  "'a scalar_traits \<Rightarrow> StorageOrder \<Rightarrow> UpLo \<Rightarrow> bool \<Rightarrow> bool \<Rightarrow> nat \<Rightarrow> 'a::comm_ring_1 list \<Rightarrow> nat \<Rightarrow>
   'a list \<Rightarrow> 'a list \<Rightarrow> 'a \<Rightarrow> 'a list" where
  "dense_reference T order uplo ConjugateLhs ConjugateRhs sz lhs lhsStride rhs res alpha =
     map (\<lambda>i. if i < sz
               then res ! i + alpha * (\<Sum>j<sz. selfadjoint_coeff T order uplo ConjugateLhs lhs lhsStride i j
                                             * operand_coeff T ConjugateRhs rhs j)
               else res ! i) [0..<length res]"

text \<open>
  The logical matrix of a stored triangle, as rows.
\<close>

definition logical_matrix ::
  "'a scalar_traits \<Rightarrow> StorageOrder \<Rightarrow> UpLo \<Rightarrow> nat \<Rightarrow> 'a list \<Rightarrow> nat \<Rightarrow> 'a list list" where
  "logical_matrix T order uplo sz lhs lhsStride =
     map (\<lambda>i. map (\<lambda>j. selfadjoint_coeff T order uplo False lhs lhsStride i j) [0..<sz]) [0..<sz]"

text \<open>
  A buffer of \<open>n\<close> zeros with the value \<open>v\<close> at index \<open>k\<close>.
\<close>

definition entry_at :: "nat \<Rightarrow> nat \<Rightarrow> 'a::zero \<Rightarrow> 'a list" where
  "entry_at n k v = (replicate n 0)[k := v]"

subsection \<open>The closed form of a call\<close>

text \<open>
  The accumulator after \<open>res[k] += d k\<close> for every \<open>k\<close>.
\<close>

definition acc :: "'a::comm_ring_1 list \<Rightarrow> (nat \<Rightarrow> 'a) \<Rightarrow> 'a list" where
  "acc res d = map (\<lambda>k. res ! k + d k) [0..<length res]"

text \<open>
  What one iteration of the two-column loop adds to \<open>res[k]\<close>, in terms of the two columns
  \<open>a0 = A0[\<cdot>]\<close> and \<open>a1 = A1[\<cdot>]\<close>: the 2x2 diagonal block, the direct contributions over
  the inner range and the transposed contributions to \<open>res[j]\<close> and \<open>res[j+1]\<close>. Below
  \<open>alignedStart\<close> the products are those of the scalar head, which does not use the
  conjugate helpers.
\<close>

definition block_delta_at ::
  "'a scalar_traits \<Rightarrow> bool \<Rightarrow> conj_helper \<Rightarrow> conj_helper \<Rightarrow> (nat \<Rightarrow> 'a::comm_ring_1) \<Rightarrow> (nat \<Rightarrow> 'a) \<Rightarrow>
   'a list \<Rightarrow> 'a \<Rightarrow> 'a \<Rightarrow> nat \<Rightarrow> nat \<Rightarrow> nat \<Rightarrow> nat \<Rightarrow> nat \<Rightarrow> 'a" where
  "block_delta_at T FirstTriangular cj0 cj1 a0 a1 rhs alpha cjAlpha starti alignedStart endi j k =
    (let t0 = cjAlpha * rhs ! j;
         t1 = cjAlpha * rhs ! (j + 1);
         D = (\<lambda>i. if i < alignedStart then t0 * a0 i + t1 * a1 i
                  else pmul T cj0 (a0 i) t0 + pmul T cj0 (a1 i) t1);
         E2 = (\<lambda>i. if i < alignedStart then ei_conj T (a0 i) * rhs ! i
                  else pmul T cj1 (a0 i) (rhs ! i));
         E3 = (\<lambda>i. if i < alignedStart then ei_conj T (a1 i) * rhs ! i
                  else pmul T cj1 (a1 i) (rhs ! i))
     in (if k = j then
           pmul T cj0 (a0 j) t0
           + (if FirstTriangular then pmul T cj0 (a1 j) t1 else 0)
           + alpha * ((if FirstTriangular then 0 else pmul T cj1 (a0 (j + 1)) (rhs ! (j + 1)))
                      + sum E2 {starti..<endi})
         else 0)
      + (if k = j + 1 then
           (if FirstTriangular then 0 else pmul T cj0 (a0 (j + 1)) t0)
           + pmul T cj0 (a1 (j + 1)) t1
           + alpha * ((if FirstTriangular then pmul T cj1 (a1 j) (rhs ! j) else 0)
                      + sum E3 {starti..<endi})
         else 0)
      + (if starti \<le> k \<and> k < endi then D k else 0))"

text \<open>
  The same for the columns \<open>j\<close>, \<open>j+1\<close> of the matrix buffer.
\<close>

definition block_delta ::
  "'a scalar_traits \<Rightarrow> bool \<Rightarrow> conj_helper \<Rightarrow> conj_helper \<Rightarrow> nat \<Rightarrow> 'a::comm_ring_1 list \<Rightarrow> nat \<Rightarrow>
   'a list \<Rightarrow> nat \<Rightarrow> 'a \<Rightarrow> 'a \<Rightarrow> nat \<Rightarrow> nat \<Rightarrow> 'a" where
  "block_delta T FirstTriangular cj0 cj1 sz lhs lhsStride rhs resAddr alpha cjAlpha j k =
    (let starti = (if FirstTriangular then 0 else j + 2);
         endi = (if FirstTriangular then j else sz);
         alignedStart = starti + ei_alignmentOffset (PacketSize T) (resAddr + starti) (endi - starti)
     in block_delta_at T FirstTriangular cj0 cj1
          (\<lambda>i. lhs ! (j * lhsStride + i)) (\<lambda>i. lhs ! ((j + 1) * lhsStride + i))
          rhs alpha cjAlpha starti alignedStart endi j k)"

text \<open>
  What one iteration of the single-column loop adds to \<open>res[k]\<close>.
\<close>

definition column_delta_at ::
  "'a scalar_traits \<Rightarrow> conj_helper \<Rightarrow> conj_helper \<Rightarrow> (nat \<Rightarrow> 'a::comm_ring_1) \<Rightarrow>
   'a list \<Rightarrow> 'a \<Rightarrow> 'a \<Rightarrow> nat \<Rightarrow> nat \<Rightarrow> nat \<Rightarrow> nat \<Rightarrow> 'a" where
  "column_delta_at T cj0 cj1 a0 rhs alpha cjAlpha starti endi j k =
    (let t1 = cjAlpha * rhs ! j
     in (if k = j then
           pmul T cj0 (a0 j) t1 + alpha * (\<Sum>i = starti..<endi. pmul T cj1 (a0 i) (rhs ! i))
         else 0)
      + (if starti \<le> k \<and> k < endi then pmul T cj0 (a0 k) t1 else 0))"

text \<open>
  The same for the column \<open>j\<close> of the matrix buffer.
\<close>

definition column_delta ::
  "'a scalar_traits \<Rightarrow> bool \<Rightarrow> conj_helper \<Rightarrow> conj_helper \<Rightarrow> nat \<Rightarrow> 'a::comm_ring_1 list \<Rightarrow> nat \<Rightarrow>
   'a list \<Rightarrow> 'a \<Rightarrow> 'a \<Rightarrow> nat \<Rightarrow> nat \<Rightarrow> 'a" where
  "column_delta T FirstTriangular cj0 cj1 sz lhs lhsStride rhs alpha cjAlpha j k =
     column_delta_at T cj0 cj1 (\<lambda>i. lhs ! (j * lhsStride + i)) rhs alpha cjAlpha
       (if FirstTriangular then 0 else j + 1) (if FirstTriangular then j else sz) j k"

text \<open>
  What the loop nest adds to \<open>res[k]\<close>.
\<close>

definition columns_delta ::
  "'a scalar_traits \<Rightarrow> bool \<Rightarrow> conj_helper \<Rightarrow> conj_helper \<Rightarrow> nat \<Rightarrow> 'a::comm_ring_1 list \<Rightarrow> nat \<Rightarrow>
   'a list \<Rightarrow> nat \<Rightarrow> 'a \<Rightarrow> 'a \<Rightarrow> nat \<Rightarrow> 'a" where
  "columns_delta T FirstTriangular cj0 cj1 sz lhs lhsStride rhs resAddr alpha cjAlpha k =
    (let span = 2 * ((sz - 8) div 2);
         bound = (if FirstTriangular then sz - span else span)
     in (\<Sum>m<span div 2. block_delta T FirstTriangular cj0 cj1 sz lhs lhsStride rhs resAddr alpha cjAlpha
              ((if FirstTriangular then bound else 0) + m * 2) k)
      + (\<Sum>j = (if FirstTriangular then 0 else bound)..<(if FirstTriangular then bound else sz).
            column_delta T FirstTriangular cj0 cj1 sz lhs lhsStride rhs alpha cjAlpha j k))"

text \<open>
  What a call adds to \<open>res[k]\<close>, with the helpers and \<open>cjAlpha\<close> of lines 43-52.
\<close>

definition kernel_delta ::
  "'a scalar_traits \<Rightarrow> StorageOrder \<Rightarrow> UpLo \<Rightarrow> bool \<Rightarrow> bool \<Rightarrow> nat \<Rightarrow> 'a::comm_ring_1 list \<Rightarrow> nat \<Rightarrow>
   'a list \<Rightarrow> nat \<Rightarrow> 'a \<Rightarrow> nat \<Rightarrow> 'a" where
  "kernel_delta T StorageOrder UpLo ConjugateLhs ConjugateRhs sz lhs lhsStride rhs resAddr alpha =
    (let IsRowMajor = (StorageOrder = RowMajor);
         IsLower = (UpLo = LowerTriangular);
         FirstTriangular = (IsRowMajor = IsLower);
         cj0 = (IsComplex T \<and> (ConjugateLhs \<noteq> IsRowMajor), ConjugateRhs);
         cj1 = (IsComplex T \<and> (ConjugateLhs \<noteq> (\<not> IsRowMajor)), ConjugateRhs);
         cjAlpha = (if ConjugateRhs then ei_conj T alpha else alpha)
     in columns_delta T FirstTriangular cj0 cj1 sz lhs lhsStride rhs resAddr alpha cjAlpha)"

section \<open>Every valid call returns its closed form\<close>

text \<open>
  For the scalars of a commutative ring, whose arithmetic is exact. Each loop is run by
  the invariant rule \<open>for_loop_inv\<close>; the accumulator after a loop is the accumulator
  before it plus the increments of the loop, and the transposed sums are sums over the
  index range. The vectorized body keeps the horizontal sum of its packets equal to the
  sum over the lanes it has loaded.
\<close>

lemma blocked_span_eq: "sz < 2 ^ 31 \<Longrightarrow> blocked_span sz = 2 * ((sz - 8) div 2)"
proof -
  assume a: "sz < 2 ^ 31"
  define x where "x = max 0 (int sz - 8)"
  have x0: "0 \<le> x" and x1: "x < 2 ^ 31" using a by (auto simp: x_def)
  have m: "(0xfffffffE :: int) = 2 * mask 31" by (simp add: mask_eq_exp_minus_1)
  have "and x 0xfffffffE = 2 * (and (x div 2) (mask 31))"
    unfolding m by (subst and_int.rec [of x]) (simp add: )
  also have "and (x div 2) (mask 31) = x div 2"
    using x0 x1 by (simp add: take_bit_int_eq_self flip: take_bit_eq_mask)
  finally have "and x 0xfffffffE = 2 * (x div 2)" .
  moreover have "nat (2 * (x div 2)) = 2 * ((sz - 8) div 2)" unfolding x_def by (cases "8 \<le> sz") (auto simp: nat_div_distrib nat_mult_distrib)
  ultimately show ?thesis by (simp add: blocked_span_def x_def)
qed

lemma for_loop_inv:
  assumes "0 < step" "I 0 s"
    and "\<And>m s. m < M \<Longrightarrow> I m s \<Longrightarrow> \<exists>s'. body (i + m * step) s = Some s' \<and> I (Suc m) s'"
  shows "\<exists>s'. for_loop step i (i + M * step) body s = Some s' \<and> I M s'"
  using assms(2,3)
proof (induction M arbitrary: i s I)
  case 0
  then show ?case by (simp add: for_loop.simps)
next
  case (Suc M)
  from Suc.prems(2) [of 0 s] Suc.prems(1) obtain s1 where s1: "body i s = Some s1" "I 1 s1" by auto
  have "\<exists>s'. for_loop step (i + step) (i + step + M * step) body s1 = Some s' \<and> (\<lambda>m. I (Suc m)) M s'"
  proof (rule Suc.IH)
    show "I (Suc 0) s1" using s1 by simp
  next
    fix m s assume "m < M" "I (Suc m) s"
    with Suc.prems(2) [of "Suc m" s] show "\<exists>s'. body (i + step + m * step) s = Some s' \<and> I (Suc (Suc m)) s'"
      by (simp add: add.assoc)
  qed
  moreover have "for_loop step i (i + Suc M * step) body s = for_loop step (i + step) (i + step + M * step) body s1"
    using assms(1) s1 by (subst for_loop.simps) (simp add: add.assoc)
  ultimately show ?case by simp
qed

lemma length_acc [simp]: "length (acc res d) = length res"
  by (simp add: acc_def)

lemma nth_acc [simp]: "k < length res \<Longrightarrow> acc res d ! k = res ! k + d k"
  by (simp add: acc_def)

lemma acc_cong: "(\<And>k. k < length res \<Longrightarrow> d k = e k) \<Longrightarrow> acc res d = acc res e"
  by (simp add: acc_def)

lemma acc_acc: "acc (acc res d) e = acc res (\<lambda>k. d k + e k)"
  by (rule nth_equalityI) (simp_all add: add.assoc)

lemma acc_zero [simp]: "acc res (\<lambda>k. 0) = res"
  by (rule nth_equalityI) simp_all

lemma rd_Some: "k < length buf \<Longrightarrow> rd buf k = Some (buf ! k)"
  by (simp add: rd_def)

lemma add_at_acc: "k < length res \<Longrightarrow> add_at res k v = Some (acc res (\<lambda>m. if m = k then v else 0))"
  unfolding add_at_def by (auto intro!: nth_equalityI simp: nth_list_update)

lemma scalar_loop3:
  assumes step: "\<And>k r u v. lo \<le> k \<Longrightarrow> k < lo + M \<Longrightarrow> length r = N \<Longrightarrow>
      body k (r, u, v) = Some (acc r (\<lambda>m. if m = k then D k else 0), u + E2 k, v + E3 k)"
    and len: "length res = N"
  shows "for_loop 1 lo (lo + M) body (res, t2, t3) =
     Some (acc res (\<lambda>k. if lo \<le> k \<and> k < lo + M then D k else 0),
           t2 + sum E2 {lo..<lo + M}, t3 + sum E3 {lo..<lo + M})"
proof -
  define I where "I m s \<longleftrightarrow> s = (acc res (\<lambda>k. if lo \<le> k \<and> k < lo + m then D k else 0),
           t2 + sum E2 {lo..<lo + m}, t3 + sum E3 {lo..<lo + m})" for m s
  have "\<exists>s'. for_loop 1 lo (lo + M * 1) body (res, t2, t3) = Some s' \<and> I M s'"
  proof (rule for_loop_inv)
    show "I 0 (res, t2, t3)" by (auto simp: I_def intro!: nth_equalityI)
  next
    fix m s assume m: "m < M" and "I m s"
    then have s: "s = (acc res (\<lambda>k. if lo \<le> k \<and> k < lo + m then D k else 0),
           t2 + sum E2 {lo..<lo + m}, t3 + sum E3 {lo..<lo + m})" by (simp add: I_def)
    have "body (lo + m) s = Some (acc (acc res (\<lambda>k. if lo \<le> k \<and> k < lo + m then D k else 0))
               (\<lambda>k. if k = lo + m then D (lo + m) else 0),
           t2 + sum E2 {lo..<lo + m} + E2 (lo + m), t3 + sum E3 {lo..<lo + m} + E3 (lo + m))"
      unfolding s using m len by (intro step) simp_all
    moreover have "acc (acc res (\<lambda>k. if lo \<le> k \<and> k < lo + m then D k else 0))
               (\<lambda>k. if k = lo + m then D (lo + m) else 0)
        = acc res (\<lambda>k. if lo \<le> k \<and> k < lo + Suc m then D k else 0)"
      unfolding acc_acc by (rule acc_cong) auto
    ultimately show "\<exists>s'. body (lo + m * 1) s = Some s' \<and> I (Suc m) s'"
      by (simp add: I_def add.assoc)
  qed simp
  then show ?thesis by (simp add: I_def)
qed

lemma scalar_loop2:
  assumes step: "\<And>k r u. lo \<le> k \<Longrightarrow> k < lo + M \<Longrightarrow> length r = N \<Longrightarrow>
      body k (r, u) = Some (acc r (\<lambda>m. if m = k then D k else 0), u + E2 k)"
    and len: "length res = N"
  shows "for_loop 1 lo (lo + M) body (res, t2) =
     Some (acc res (\<lambda>k. if lo \<le> k \<and> k < lo + M then D k else 0), t2 + sum E2 {lo..<lo + M})"
proof -
  define I where "I m s \<longleftrightarrow> s = (acc res (\<lambda>k. if lo \<le> k \<and> k < lo + m then D k else 0),
           t2 + sum E2 {lo..<lo + m})" for m s
  have "\<exists>s'. for_loop 1 lo (lo + M * 1) body (res, t2) = Some s' \<and> I M s'"
  proof (rule for_loop_inv)
    show "I 0 (res, t2)" by (auto simp: I_def intro!: nth_equalityI)
  next
    fix m s assume m: "m < M" and "I m s"
    then have s: "s = (acc res (\<lambda>k. if lo \<le> k \<and> k < lo + m then D k else 0),
           t2 + sum E2 {lo..<lo + m})" by (simp add: I_def)
    have "body (lo + m) s = Some (acc (acc res (\<lambda>k. if lo \<le> k \<and> k < lo + m then D k else 0))
               (\<lambda>k. if k = lo + m then D (lo + m) else 0),
           t2 + sum E2 {lo..<lo + m} + E2 (lo + m))"
      unfolding s using m len by (intro step) simp_all
    moreover have "acc (acc res (\<lambda>k. if lo \<le> k \<and> k < lo + m then D k else 0))
               (\<lambda>k. if k = lo + m then D (lo + m) else 0)
        = acc res (\<lambda>k. if lo \<le> k \<and> k < lo + Suc m then D k else 0)"
      unfolding acc_acc by (rule acc_cong) auto
    ultimately show "\<exists>s'. body (lo + m * 1) s = Some s' \<and> I (Suc m) s'"
      by (simp add: I_def add.assoc)
  qed simp
  then show ?thesis by (simp add: I_def)
qed

lemma head_body_step:
  assumes "A0 + k < length lhs" "A1 + k < length lhs" "k < length res" "k < length rhs"
  shows "head_body T lhs A0 A1 rhs t0 t1 k (res, t2, t3) =
    Some (acc res (\<lambda>m. if m = k then t0 * lhs ! (A0 + k) + t1 * lhs ! (A1 + k) else 0),
          t2 + ei_conj T (lhs ! (A0 + k)) * rhs ! k, t3 + ei_conj T (lhs ! (A1 + k)) * rhs ! k)"
  using assms by (simp add: head_body_def rd_Some add_at_acc)

lemma tail_body_step:
  assumes "A0 + k < length lhs" "A1 + k < length lhs" "k < length res" "k < length rhs"
  shows "tail_body T cj0 cj1 lhs A0 A1 rhs t0 t1 k (res, t2, t3) =
    Some (acc res (\<lambda>m. if m = k then pmul T cj0 (lhs ! (A0 + k)) t0 + pmul T cj0 (lhs ! (A1 + k)) t1 else 0),
          t2 + pmul T cj1 (lhs ! (A0 + k)) (rhs ! k), t3 + pmul T cj1 (lhs ! (A1 + k)) (rhs ! k))"
  using assms by (simp add: tail_body_def rd_Some add_at_acc)

lemma column_inner_step:
  assumes "A0 + k < length lhs" "k < length res" "k < length rhs"
  shows "column_inner T cj0 cj1 lhs A0 rhs t1 k (res, t2) =
    Some (acc res (\<lambda>m. if m = k then pmul T cj0 (lhs ! (A0 + k)) t1 else 0),
          t2 + pmul T cj1 (lhs ! (A0 + k)) (rhs ! k))"
  using assms by (simp add: column_inner_def rd_Some add_at_acc)

lemma ploadu_Some:
  "k + P \<le> length buf \<Longrightarrow> ei_ploadu P buf k = Some (map (\<lambda>l. buf ! (k + l)) [0..<P])"
  unfolding ei_ploadu_def by (auto intro!: nth_equalityI)

lemma pset1_map: "ei_pset1 P t = map (\<lambda>l. t) [0..<P]"
  unfolding ei_pset1_def by (auto intro!: nth_equalityI)

lemma pmadd_packet_map:
  "pmadd_packet T cj (map f [0..<P]) (map g [0..<P]) (map h [0..<P]) =
     map (\<lambda>l. h l + pmul T cj (f l) (g l)) [0..<P]"
  unfolding pmadd_packet_def by (auto intro!: nth_equalityI simp: pmadd_def)

lemma pmadd_packet_acc:
  assumes "length cs = P"
  shows "length (pmadd_packet T cj (map f [0..<P]) (map g [0..<P]) cs) = P"
    and "sum_list (pmadd_packet T cj (map f [0..<P]) (map g [0..<P]) cs) =
           sum_list cs + (\<Sum>l = 0..<P. pmul T cj (f l) (g l))"
proof -
  have cs: "cs = map (\<lambda>l. cs ! l) [0..<P]" using assms by (auto intro!: nth_equalityI)
  show "length (pmadd_packet T cj (map f [0..<P]) (map g [0..<P]) cs) = P"
    by (subst cs) (simp add: pmadd_packet_map)
  have "sum_list (pmadd_packet T cj (map f [0..<P]) (map g [0..<P]) cs) =
       (\<Sum>l = 0..<P. cs ! l + pmul T cj (f l) (g l))"
    by (subst cs) (simp add: pmadd_packet_map interv_sum_list_conv_sum_set_nat)
  also have "\<dots> = (\<Sum>l = 0..<P. cs ! l) + (\<Sum>l = 0..<P. pmul T cj (f l) (g l))"
    by (simp add: sum.distrib)
  also have "(\<Sum>l = 0..<P. cs ! l) = sum_list cs"
    using assms by (simp add: sum_list_sum_nth)
  finally show "sum_list (pmadd_packet T cj (map f [0..<P]) (map g [0..<P]) cs) =
           sum_list cs + (\<Sum>l = 0..<P. pmul T cj (f l) (g l))" .
qed

lemma pstore_acc:
  assumes "(addr + k) mod P = 0" "k + P \<le> length res"
  shows "ei_pstore P addr res k (map (\<lambda>l. res ! (k + l) + D (k + l)) [0..<P]) =
     Some (acc res (\<lambda>m. if k \<le> m \<and> m < k + P then D m else 0))"
proof -
  have "take k res @ map (\<lambda>l. res ! (k + l) + D (k + l)) [0..<P] @ drop (k + P) res =
     acc res (\<lambda>m. if k \<le> m \<and> m < k + P then D m else 0)"
    using assms(2) by (auto intro!: nth_equalityI simp: nth_append)
  then show ?thesis using assms by (simp add: ei_pstore_def)
qed

lemma sum_shift_range: "(\<Sum>l = 0..<P. f (k + l)) = sum f {k..<k + (P::nat)}"
  using sum.shift_bounds_nat_ivl [of f 0 k P] by (simp add: add.commute)

lemma packet_body_step:
  assumes al: "(resAddr + k) mod PacketSize T = 0"
    and b: "A0 + k + PacketSize T \<le> length lhs" "A1 + k + PacketSize T \<le> length lhs"
      "k + PacketSize T \<le> length rhs" "k + PacketSize T \<le> length res"
    and l: "length p2 = PacketSize T" "length p3 = PacketSize T"
  shows "\<exists>p2' p3'. packet_body T cj0 cj1 lhs A0 A1 rhs resAddr
           (ei_pset1 (PacketSize T) t0) (ei_pset1 (PacketSize T) t1) k (res, p2, p3) =
        Some (acc res (\<lambda>m. if k \<le> m \<and> m < k + PacketSize T
                 then pmul T cj0 (lhs ! (A0 + m)) t0 + pmul T cj0 (lhs ! (A1 + m)) t1 else 0), p2', p3')
      \<and> length p2' = PacketSize T \<and> length p3' = PacketSize T
      \<and> sum_list p2' = sum_list p2 + (\<Sum>m = k..<k + PacketSize T. pmul T cj1 (lhs ! (A0 + m)) (rhs ! m))
      \<and> sum_list p3' = sum_list p3 + (\<Sum>m = k..<k + PacketSize T. pmul T cj1 (lhs ! (A1 + m)) (rhs ! m))"
proof -
  let ?P = "PacketSize T"
  let ?D = "\<lambda>m. pmul T cj0 (lhs ! (A0 + m)) t0 + pmul T cj0 (lhs ! (A1 + m)) t1"
  have X: "pmadd_packet T cj0 (map (\<lambda>l. lhs ! (A0 + k + l)) [0..<?P]) (ei_pset1 ?P t0)
            (pmadd_packet T cj0 (map (\<lambda>l. lhs ! (A1 + k + l)) [0..<?P]) (ei_pset1 ?P t1)
               (map (\<lambda>l. res ! (k + l)) [0..<?P]))
        = map (\<lambda>l. res ! (k + l) + ?D (k + l)) [0..<?P]"
    by (simp add: pset1_map pmadd_packet_map add.assoc add.commute add.left_commute)
  have st: "ei_pstore ?P resAddr res k (map (\<lambda>l. res ! (k + l) + ?D (k + l)) [0..<?P]) =
     Some (acc res (\<lambda>m. if k \<le> m \<and> m < k + ?P then ?D m else 0))"
    using al b(4) by (rule pstore_acc)
  have s2: "sum_list (pmadd_packet T cj1 (map (\<lambda>l. lhs ! (A0 + k + l)) [0..<?P]) (map (\<lambda>l. rhs ! (k + l)) [0..<?P]) p2)
       = sum_list p2 + (\<Sum>m = k..<k + ?P. pmul T cj1 (lhs ! (A0 + m)) (rhs ! m))"
    using pmadd_packet_acc(2) [OF l(1), of T cj1 "\<lambda>l. lhs ! (A0 + k + l)" "\<lambda>l. rhs ! (k + l)"]
      sum_shift_range [of "\<lambda>m. pmul T cj1 (lhs ! (A0 + m)) (rhs ! m)" k ?P]
    by (simp add: add.assoc)
  have s3: "sum_list (pmadd_packet T cj1 (map (\<lambda>l. lhs ! (A1 + k + l)) [0..<?P]) (map (\<lambda>l. rhs ! (k + l)) [0..<?P]) p3)
       = sum_list p3 + (\<Sum>m = k..<k + ?P. pmul T cj1 (lhs ! (A1 + m)) (rhs ! m))"
    using pmadd_packet_acc(2) [OF l(2), of T cj1 "\<lambda>l. lhs ! (A1 + k + l)" "\<lambda>l. rhs ! (k + l)"]
      sum_shift_range [of "\<lambda>m. pmul T cj1 (lhs ! (A1 + m)) (rhs ! m)" k ?P]
    by (simp add: add.assoc)
  show ?thesis
    unfolding packet_body_def
    using al b X st s2 s3 pmadd_packet_acc(1) [OF l(1)] pmadd_packet_acc(1) [OF l(2)]
    by (simp add: ploadu_Some ei_pload_def add.assoc)
qed

lemma packet_loop:
  assumes P: "0 < PacketSize T"
    and al: "0 < M \<Longrightarrow> (resAddr + lo) mod PacketSize T = 0"
    and b: "A0 + lo + M * PacketSize T \<le> length lhs" "A1 + lo + M * PacketSize T \<le> length lhs"
      "lo + M * PacketSize T \<le> length rhs" "lo + M * PacketSize T \<le> length res"
    and l: "length p2 = PacketSize T" "length p3 = PacketSize T"
  shows "\<exists>p2' p3'. for_loop (PacketSize T) lo (lo + M * PacketSize T)
          (packet_body T cj0 cj1 lhs A0 A1 rhs resAddr
             (ei_pset1 (PacketSize T) t0) (ei_pset1 (PacketSize T) t1)) (res, p2, p3) =
        Some (acc res (\<lambda>m. if lo \<le> m \<and> m < lo + M * PacketSize T
                 then pmul T cj0 (lhs ! (A0 + m)) t0 + pmul T cj0 (lhs ! (A1 + m)) t1 else 0), p2', p3')
      \<and> sum_list p2' = sum_list p2 + (\<Sum>m = lo..<lo + M * PacketSize T. pmul T cj1 (lhs ! (A0 + m)) (rhs ! m))
      \<and> sum_list p3' = sum_list p3 + (\<Sum>m = lo..<lo + M * PacketSize T. pmul T cj1 (lhs ! (A1 + m)) (rhs ! m))"
proof -
  let ?P = "PacketSize T"
  let ?D = "\<lambda>m. pmul T cj0 (lhs ! (A0 + m)) t0 + pmul T cj0 (lhs ! (A1 + m)) t1"
  let ?E2 = "\<lambda>m. pmul T cj1 (lhs ! (A0 + m)) (rhs ! m)"
  let ?E3 = "\<lambda>m. pmul T cj1 (lhs ! (A1 + m)) (rhs ! m)"
  define I where "I m s \<longleftrightarrow> (\<exists>q2 q3. s = (acc res (\<lambda>k. if lo \<le> k \<and> k < lo + m * ?P then ?D k else 0), q2, q3)
      \<and> length q2 = ?P \<and> length q3 = ?P
      \<and> sum_list q2 = sum_list p2 + sum ?E2 {lo..<lo + m * ?P}
      \<and> sum_list q3 = sum_list p3 + sum ?E3 {lo..<lo + m * ?P})" for m s
  have "\<exists>s'. for_loop ?P lo (lo + M * ?P)
          (packet_body T cj0 cj1 lhs A0 A1 rhs resAddr (ei_pset1 ?P t0) (ei_pset1 ?P t1)) (res, p2, p3) = Some s'
        \<and> I M s'"
  proof (rule for_loop_inv [OF P])
    show "I 0 (res, p2, p3)" using l by (auto simp: I_def intro!: nth_equalityI)
  next
    fix m s assume m: "m < M" and "I m s"
    then obtain q2 q3 where s: "s = (acc res (\<lambda>k. if lo \<le> k \<and> k < lo + m * ?P then ?D k else 0), q2, q3)"
      and q: "length q2 = ?P" "length q3 = ?P"
      and sq: "sum_list q2 = sum_list p2 + sum ?E2 {lo..<lo + m * ?P}"
        "sum_list q3 = sum_list p3 + sum ?E3 {lo..<lo + m * ?P}"
      by (auto simp: I_def)
    let ?k = "lo + m * ?P"
    let ?r = "acc res (\<lambda>k. if lo \<le> k \<and> k < lo + m * ?P then ?D k else 0)"
    have le: "?k + ?P \<le> lo + M * ?P"
    proof -
      have "Suc m * ?P \<le> M * ?P" using m by (intro mult_le_mono1) simp
      then show ?thesis by simp
    qed
    have al': "(resAddr + ?k) mod ?P = 0"
    proof -
      have "(resAddr + lo) mod ?P = 0" using al m by simp
      then have "(resAddr + lo + m * ?P) mod ?P = 0" by simp
      then show ?thesis by (simp add: add.assoc)
    qed
    have bb: "A0 + ?k + ?P \<le> length lhs" "A1 + ?k + ?P \<le> length lhs"
      "?k + ?P \<le> length rhs" "?k + ?P \<le> length ?r"
      using le b by simp_all
    from packet_body_step [OF al' bb q, of cj0 cj1 t0 t1]
    obtain p2' p3' where st: "packet_body T cj0 cj1 lhs A0 A1 rhs resAddr
           (ei_pset1 ?P t0) (ei_pset1 ?P t1) ?k (?r, q2, q3) =
        Some (acc ?r (\<lambda>m. if ?k \<le> m \<and> m < ?k + ?P then ?D m else 0), p2', p3')"
      and q': "length p2' = ?P" "length p3' = ?P"
      and sq': "sum_list p2' = sum_list q2 + sum ?E2 {?k..<?k + ?P}"
          "sum_list p3' = sum_list q3 + sum ?E3 {?k..<?k + ?P}"
      by (auto simp: bb(4))
    have r: "acc ?r (\<lambda>m. if ?k \<le> m \<and> m < ?k + ?P then ?D m else 0) =
       acc res (\<lambda>k. if lo \<le> k \<and> k < lo + Suc m * ?P then ?D k else 0)"
      unfolding acc_acc by (rule acc_cong) auto
    have u: "{lo..<lo + Suc m * ?P} = {lo..<?k} \<union> {?k..<?k + ?P}" by auto
    have s2: "sum ?E2 {lo..<lo + Suc m * ?P} = sum ?E2 {lo..<?k} + sum ?E2 {?k..<?k + ?P}"
      unfolding u by (rule sum.union_disjoint) auto
    have s3: "sum ?E3 {lo..<lo + Suc m * ?P} = sum ?E3 {lo..<?k} + sum ?E3 {?k..<?k + ?P}"
      unfolding u by (rule sum.union_disjoint) auto
    show "\<exists>s'. packet_body T cj0 cj1 lhs A0 A1 rhs resAddr (ei_pset1 ?P t0) (ei_pset1 ?P t1) (lo + m * ?P) s = Some s'
        \<and> I (Suc m) s'"
      unfolding s st I_def using q' sq sq' r s2 s3 by (simp add: add.assoc)
  qed
  then show ?thesis by (auto simp: I_def)
qed

lemma alignmentOffset_le: "ei_alignmentOffset P addr mx \<le> mx"
  by (simp add: ei_alignmentOffset_def)

lemma alignmentOffset_aligned:
  assumes "0 < P" "ei_alignmentOffset P addr mx < mx"
  shows "(addr + ei_alignmentOffset P addr mx) mod P = 0"
proof (cases "1 < P")
  case False
  with assms(1) have "P = 1" by simp
  then show ?thesis by simp
next
  case True
  with assms(2) have e: "ei_alignmentOffset P addr mx = (P - addr mod P) mod P"
    by (auto simp: ei_alignmentOffset_def min_def split: if_splits)
  show ?thesis
  proof (cases "addr mod P = 0")
    case True
    then show ?thesis by (simp add: e)
  next
    case False
    then have lt: "P - addr mod P < P" using assms(1) by simp
    have "addr + (P - addr mod P) = (addr - addr mod P) + P"
      using mod_less_divisor [OF assms(1), of addr] mod_le_divisor [OF assms(1), of addr]
        mod_less_eq_dividend [of addr P] by simp
    also have "\<dots> = P * (addr div P) + P"
      by (simp add: minus_mod_eq_mult_div)
    finally have "(addr + (P - addr mod P)) mod P = 0" by simp
    then show ?thesis using lt by (simp add: e)
  qed
qed

lemma sum_split3:
  fixes f :: "nat \<Rightarrow> 'a::comm_monoid_add"
  assumes "a \<le> b" "b \<le> c" "c \<le> d"
  shows "sum f {a..<b} + sum f {b..<c} + sum f {c..<d} = sum f {a..<d}"
  using assms by (simp add: sum.atLeastLessThan_concat)

lemma block_diag_acc:
  assumes "A0 + (j + 1) < length lhs" "A1 + (j + 1) < length lhs"
    "j + 1 < length res" "j + 1 < length rhs"
  shows "block_diag T FT cj0 cj1 lhs A0 A1 rhs t0 t1 j (res, t2, t3) =
    Some (acc res (\<lambda>k.
            (if k = j then pmul T cj0 (lhs ! (A0 + j)) t0
                 + (if FT then pmul T cj0 (lhs ! (A1 + j)) t1 else 0) else 0)
          + (if k = j + 1 then (if FT then 0 else pmul T cj0 (lhs ! (A0 + (j + 1))) t0)
                 + pmul T cj0 (lhs ! (A1 + (j + 1))) t1 else 0)),
          t2 + (if FT then 0 else pmul T cj1 (lhs ! (A0 + (j + 1))) (rhs ! (j + 1))),
          t3 + (if FT then pmul T cj1 (lhs ! (A1 + j)) (rhs ! j) else 0))"
proof -
  have b: "A0 + j < length lhs" "A1 + j < length lhs" "j < length res" "j < length rhs"
    "Suc (A0 + j) < length lhs" "Suc (A1 + j) < length lhs" "Suc j < length res" "Suc j < length rhs"
    using assms by simp_all
  show ?thesis
    unfolding block_diag_def using b
    by (auto simp: rd_Some add_at_acc acc_acc intro!: acc_cong)
qed

lemma ei_predux_sum_list: "ei_predux pk = sum_list (pk :: 'a::comm_ring_1 list)"
  by (simp add: ei_predux_def sum_list.eq_foldr)

lemma sum_list_pset1_zero: "sum_list (ei_pset1 P (0::'a::comm_ring_1)) = 0"
  by (simp add: ei_pset1_def sum_list_replicate)

lemma block_inner_acc:
  fixes T :: "'a::comm_ring_1 scalar_traits" and cj0 cj1 :: conj_helper and t0 t1 :: 'a
    and lhs rhs :: "'a list" and A0 A1 as :: nat
  assumes P: "0 < PacketSize T"
    and r: "starti \<le> as" "as + q * PacketSize T \<le> endi"
    and al: "0 < q \<Longrightarrow> (resAddr + as) mod PacketSize T = 0"
    and b: "A0 + endi \<le> length lhs" "A1 + endi \<le> length lhs" "endi \<le> length rhs" "endi \<le> length res"
      "j + 1 < length res"
  defines "D \<equiv> \<lambda>i. if i < as then t0 * lhs ! (A0 + i) + t1 * lhs ! (A1 + i)
                  else pmul T cj0 (lhs ! (A0 + i)) t0 + pmul T cj0 (lhs ! (A1 + i)) t1"
    and "E2 \<equiv> \<lambda>i. if i < as then ei_conj T (lhs ! (A0 + i)) * rhs ! i
                  else pmul T cj1 (lhs ! (A0 + i)) (rhs ! i)"
    and "E3 \<equiv> \<lambda>i. if i < as then ei_conj T (lhs ! (A1 + i)) * rhs ! i
                  else pmul T cj1 (lhs ! (A1 + i)) (rhs ! i)"
  shows "block_inner T cj0 cj1 lhs A0 A1 rhs resAddr t0 t1
       (ei_pset1 (PacketSize T) t0) (ei_pset1 (PacketSize T) t1) alpha j
       starti as (as + q * PacketSize T) endi
       (ei_pset1 (PacketSize T) 0) (ei_pset1 (PacketSize T) 0) (res, t2, t3) =
    Some (acc res (\<lambda>k. (if starti \<le> k \<and> k < endi then D k else 0)
          + (if k = j then alpha * (t2 + sum E2 {starti..<endi}) else 0)
          + (if k = j + 1 then alpha * (t3 + sum E3 {starti..<endi}) else 0)))"
proof -
  let ?P = "PacketSize T"
  let ?ae = "as + q * ?P"
  let ?Dh = "\<lambda>i. t0 * lhs ! (A0 + i) + t1 * lhs ! (A1 + i)"
  let ?Dt = "\<lambda>i. pmul T cj0 (lhs ! (A0 + i)) t0 + pmul T cj0 (lhs ! (A1 + i)) t1"
  let ?Eh2 = "\<lambda>i. ei_conj T (lhs ! (A0 + i)) * rhs ! i"
  let ?Eh3 = "\<lambda>i. ei_conj T (lhs ! (A1 + i)) * rhs ! i"
  let ?Et2 = "\<lambda>i. pmul T cj1 (lhs ! (A0 + i)) (rhs ! i)"
  let ?Et3 = "\<lambda>i. pmul T cj1 (lhs ! (A1 + i)) (rhs ! i)"
  \<comment> \<open>the scalar head\<close>
  let ?r1 = "acc res (\<lambda>k. if starti \<le> k \<and> k < as then ?Dh k else 0)"
  have "for_loop 1 starti (starti + (as - starti)) (head_body T lhs A0 A1 rhs t0 t1) (res, t2, t3) =
     Some (acc res (\<lambda>k. if starti \<le> k \<and> k < starti + (as - starti) then ?Dh k else 0),
           t2 + sum ?Eh2 {starti..<starti + (as - starti)}, t3 + sum ?Eh3 {starti..<starti + (as - starti)})"
  proof (rule scalar_loop3 [where N = "length res"])
    fix k and r :: "'a list" and u v :: 'a assume "starti \<le> k" "k < starti + (as - starti)" "length r = length res"
    then show "head_body T lhs A0 A1 rhs t0 t1 k (r, u, v) =
       Some (acc r (\<lambda>m. if m = k then ?Dh k else 0), u + ?Eh2 k, v + ?Eh3 k)"
      using r b by (intro head_body_step) simp_all
  qed simp
  then have head: "for_loop 1 starti as (head_body T lhs A0 A1 rhs t0 t1) (res, t2, t3) =
     Some (?r1, t2 + sum ?Eh2 {starti..<as}, t3 + sum ?Eh3 {starti..<as})"
    using r(1) by simp
  \<comment> \<open>the vectorized body\<close>
  let ?r2 = "acc ?r1 (\<lambda>k. if as \<le> k \<and> k < ?ae then ?Dt k else 0)"
  have "\<exists>p2' p3'. for_loop ?P as ?ae
          (packet_body T cj0 cj1 lhs A0 A1 rhs resAddr (ei_pset1 ?P t0) (ei_pset1 ?P t1))
          (?r1, ei_pset1 ?P 0, ei_pset1 ?P 0) = Some (?r2, p2', p3')
      \<and> sum_list p2' = sum_list (ei_pset1 ?P (0::'a)) + sum ?Et2 {as..<?ae}
      \<and> sum_list p3' = sum_list (ei_pset1 ?P (0::'a)) + sum ?Et3 {as..<?ae}"
    using r b by (intro packet_loop P al) (simp_all add: ei_pset1_def)
  then obtain p2' p3' where packet: "for_loop ?P as ?ae
          (packet_body T cj0 cj1 lhs A0 A1 rhs resAddr (ei_pset1 ?P t0) (ei_pset1 ?P t1))
          (?r1, ei_pset1 ?P 0, ei_pset1 ?P 0) = Some (?r2, p2', p3')"
    and p: "ei_predux p2' = sum ?Et2 {as..<?ae}" "ei_predux p3' = sum ?Et3 {as..<?ae}"
    by (auto simp: ei_predux_sum_list sum_list_pset1_zero)
  \<comment> \<open>the scalar tail\<close>
  let ?u = "t2 + sum ?Eh2 {starti..<as}"
  let ?v = "t3 + sum ?Eh3 {starti..<as}"
  let ?r3 = "acc ?r2 (\<lambda>k. if ?ae \<le> k \<and> k < endi then ?Dt k else 0)"
  have "for_loop 1 ?ae (?ae + (endi - ?ae)) (tail_body T cj0 cj1 lhs A0 A1 rhs t0 t1) (?r2, ?u, ?v) =
     Some (acc ?r2 (\<lambda>k. if ?ae \<le> k \<and> k < ?ae + (endi - ?ae) then ?Dt k else 0),
           ?u + sum ?Et2 {?ae..<?ae + (endi - ?ae)}, ?v + sum ?Et3 {?ae..<?ae + (endi - ?ae)})"
  proof (rule scalar_loop3 [where N = "length res"])
    fix k and r :: "'a list" and u v :: 'a assume "?ae \<le> k" "k < ?ae + (endi - ?ae)" "length r = length res"
    then show "tail_body T cj0 cj1 lhs A0 A1 rhs t0 t1 k (r, u, v) =
       Some (acc r (\<lambda>m. if m = k then ?Dt k else 0), u + ?Et2 k, v + ?Et3 k)"
      using r b by (intro tail_body_step) simp_all
  qed simp
  then have tail: "for_loop 1 ?ae endi (tail_body T cj0 cj1 lhs A0 A1 rhs t0 t1) (?r2, ?u, ?v) =
     Some (?r3, ?u + sum ?Et2 {?ae..<endi}, ?v + sum ?Et3 {?ae..<endi})"
    using r(2) by simp
  \<comment> \<open>the sums over the three phases\<close>
  have le: "as \<le> ?ae" by simp
  have s2: "sum ?Eh2 {starti..<as} + sum ?Et2 {as..<?ae} + sum ?Et2 {?ae..<endi} = sum E2 {starti..<endi}"
  proof -
    have "sum ?Eh2 {starti..<as} = sum E2 {starti..<as}" by (rule sum.cong) (simp_all add: E2_def)
    moreover have "sum ?Et2 {as..<?ae} = sum E2 {as..<?ae}" by (rule sum.cong) (simp_all add: E2_def)
    moreover have "sum ?Et2 {?ae..<endi} = sum E2 {?ae..<endi}" by (rule sum.cong) (simp_all add: E2_def)
    ultimately show ?thesis using sum_split3 [OF r(1) le r(2), of E2] by simp
  qed
  have s3: "sum ?Eh3 {starti..<as} + sum ?Et3 {as..<?ae} + sum ?Et3 {?ae..<endi} = sum E3 {starti..<endi}"
  proof -
    have "sum ?Eh3 {starti..<as} = sum E3 {starti..<as}" by (rule sum.cong) (simp_all add: E3_def)
    moreover have "sum ?Et3 {as..<?ae} = sum E3 {as..<?ae}" by (rule sum.cong) (simp_all add: E3_def)
    moreover have "sum ?Et3 {?ae..<endi} = sum E3 {?ae..<endi}" by (rule sum.cong) (simp_all add: E3_def)
    ultimately show ?thesis using sum_split3 [OF r(1) le r(2), of E3] by simp
  qed
  have f2: "?u + sum ?Et2 {?ae..<endi} + ei_predux p2' = t2 + sum E2 {starti..<endi}"
    unfolding p s2 [symmetric] by (simp add: add_ac)
  have f3: "?v + sum ?Et3 {?ae..<endi} + ei_predux p3' = t3 + sum E3 {starti..<endi}"
    unfolding p s3 [symmetric] by (simp add: add_ac)
  have fin: "acc (acc ?r3 (\<lambda>m. if m = j then alpha * (t2 + sum E2 {starti..<endi}) else 0))
        (\<lambda>m. if m = j + 1 then alpha * (t3 + sum E3 {starti..<endi}) else 0) =
     acc res (\<lambda>k. (if starti \<le> k \<and> k < endi then D k else 0)
          + (if k = j then alpha * (t2 + sum E2 {starti..<endi}) else 0)
          + (if k = j + 1 then alpha * (t3 + sum E3 {starti..<endi}) else 0))"
    unfolding acc_acc using r by (intro acc_cong) (auto simp: D_def)
  have bj: "j < length ?r3" "j + 1 < length (acc ?r3 (\<lambda>m. if m = j then alpha * (t2 + sum E2 {starti..<endi}) else 0))"
    using b(5) by simp_all
  show ?thesis
    unfolding block_inner_def
    by (simp only: prod.case head packet tail Option.bind.simps f2 f3 add_at_acc [OF bj(1)] add_at_acc [OF bj(2)] fin)
qed

lemma block_delta_comb:
  fixes a :: "'a::comm_ring_1"
  shows "(if k = j then a + b else 0) + (if k = j + 1 then c + d else 0)
     + ((if R then Dk else 0) + (if k = j then alpha * (0 + u + s2) else 0)
        + (if k = j + 1 then alpha * (0 + v + s3) else 0)) =
   (if k = j then a + b + alpha * (u + s2) else 0)
     + (if k = j + 1 then c + d + alpha * (v + s3) else 0) + (if R then Dk else 0)"
  by simp

lemma int_mul_fits: "a * b < 2 ^ 31 \<Longrightarrow> int_mul a b = Some (a * b)"
proof -
  assume "a * b < 2 ^ 31"
  then have "int (a * b) < int (2 ^ 31)" by (simp only: of_nat_less_iff)
  then show ?thesis by (simp add: int_mul_def)
qed

lemma block_body_acc:
  fixes T :: "'a::comm_ring_1 scalar_traits"
  assumes P: "0 < PacketSize T"
    and j: "j + 1 < sz"
    and b: "(j + 1) * lhsStride + sz \<le> length lhs" "sz \<le> length rhs" "sz \<le> length res"
    and fits: "(j + 1) * lhsStride < 2 ^ 31"
  shows "block_body T FT cj0 cj1 sz lhs lhsStride rhs resAddr alpha cjAlpha j res =
     Some (acc res (block_delta T FT cj0 cj1 sz lhs lhsStride rhs resAddr alpha cjAlpha j))"
proof -
  let ?P = "PacketSize T"
  let ?A0 = "j * lhsStride"
  let ?A1 = "(j + 1) * lhsStride"
  let ?t0 = "cjAlpha * rhs ! j"
  let ?t1 = "cjAlpha * rhs ! (j + 1)"
  let ?starti = "if FT then 0 else j + 2"
  let ?endi = "if FT then j else sz"
  let ?as = "?starti + ei_alignmentOffset ?P (resAddr + ?starti) (?endi - ?starti)"
  let ?q = "(?endi - ?as) div ?P"
  have se: "?starti \<le> ?endi" "?endi \<le> sz" using j by auto
  have r: "?starti \<le> ?as" "?as \<le> ?endi"
    using alignmentOffset_le [of ?P "resAddr + ?starti" "?endi - ?starti"] se(1) by linarith+
  have qle: "?as + ?q * ?P \<le> ?endi"
  proof -
    have "?q * ?P \<le> ?endi - ?as" by (rule div_times_less_eq_dividend)
    then show ?thesis using r(2) by linarith
  qed
  have al: "(resAddr + ?as) mod ?P = 0" if "0 < ?q"
  proof -
    have "?P \<le> ?endi - ?as" using that by (simp only: div_greater_zero_iff)
    then have "?as < ?endi" using P by linarith
    then have "ei_alignmentOffset ?P (resAddr + ?starti) (?endi - ?starti) < ?endi - ?starti" by linarith
    from alignmentOffset_aligned [OF P this] show ?thesis by (simp add: add.assoc)
  qed
  have lA0: "?A0 + sz \<le> length lhs" using b(1) by simp
  have bl: "?A0 + ?endi \<le> length lhs" "?A1 + ?endi \<le> length lhs" "?endi \<le> length rhs" "?endi \<le> length res"
    using lA0 b se(2) by linarith+
  have rj: "rd rhs j = Some (rhs ! j)" "rd rhs (j + 1) = Some (rhs ! (j + 1))"
    using j b(2) by (simp_all add: rd_Some)
  let ?d1 = "\<lambda>k. (if k = j then pmul T cj0 (lhs ! (?A0 + j)) ?t0
                 + (if FT then pmul T cj0 (lhs ! (?A1 + j)) ?t1 else 0) else 0)
          + (if k = j + 1 then (if FT then 0 else pmul T cj0 (lhs ! (?A0 + (j + 1))) ?t0)
                 + pmul T cj0 (lhs ! (?A1 + (j + 1))) ?t1 else 0)"
  let ?u = "0 + (if FT then 0 else pmul T cj1 (lhs ! (?A0 + (j + 1))) (rhs ! (j + 1)))"
  let ?v = "0 + (if FT then pmul T cj1 (lhs ! (?A1 + j)) (rhs ! j) else 0)"
  have diag: "block_diag T FT cj0 cj1 lhs ?A0 ?A1 rhs ?t0 ?t1 j (res, 0, 0) = Some (acc res ?d1, ?u, ?v)"
    using j b lA0 by (intro block_diag_acc) linarith+
  let ?D = "\<lambda>i. if i < ?as then ?t0 * lhs ! (?A0 + i) + ?t1 * lhs ! (?A1 + i)
                  else pmul T cj0 (lhs ! (?A0 + i)) ?t0 + pmul T cj0 (lhs ! (?A1 + i)) ?t1"
  let ?E2 = "\<lambda>i. if i < ?as then ei_conj T (lhs ! (?A0 + i)) * rhs ! i
                  else pmul T cj1 (lhs ! (?A0 + i)) (rhs ! i)"
  let ?E3 = "\<lambda>i. if i < ?as then ei_conj T (lhs ! (?A1 + i)) * rhs ! i
                  else pmul T cj1 (lhs ! (?A1 + i)) (rhs ! i)"
  let ?d2 = "\<lambda>k. (if ?starti \<le> k \<and> k < ?endi then ?D k else 0)
          + (if k = j then alpha * (?u + sum ?E2 {?starti..<?endi}) else 0)
          + (if k = j + 1 then alpha * (?v + sum ?E3 {?starti..<?endi}) else 0)"
  have inner: "block_inner T cj0 cj1 lhs ?A0 ?A1 rhs resAddr ?t0 ?t1
       (ei_pset1 ?P ?t0) (ei_pset1 ?P ?t1) alpha j ?starti ?as (?as + ?q * ?P) ?endi
       (ei_pset1 ?P 0) (ei_pset1 ?P 0) (acc res ?d1, ?u, ?v) = Some (acc (acc res ?d1) ?d2)"
  proof (rule block_inner_acc [OF P r(1) qle al])
    show "j + 1 < length (acc res ?d1)" using j b(3) by simp
  qed (use bl in simp_all)
  have comb: "acc (acc res ?d1) ?d2 =
      acc res (block_delta T FT cj0 cj1 sz lhs lhsStride rhs resAddr alpha cjAlpha j)"
    unfolding acc_acc by (rule acc_cong) (simp only: block_delta_def block_delta_at_def Let_def block_delta_comb)
  have P0: "(PacketSize T = 0) = False" using P by simp
  have "j * lhsStride \<le> (j + 1) * lhsStride" by simp
  then have "j * lhsStride < 2 ^ 31" using fits by (rule le_less_trans)
  then have m: "int_mul j lhsStride = Some ?A0" "int_mul (j + 1) lhsStride = Some ?A1"
    using fits by (simp_all only: int_mul_fits)
  show ?thesis
    unfolding block_body_def Let_def
    by (simp only: m rj Option.bind.simps P0 if_False diag inner comb)
qed

lemma column_body_acc:
  fixes T :: "'a::comm_ring_1 scalar_traits"
  assumes j: "j < sz"
    and b: "j * lhsStride + sz \<le> length lhs" "sz \<le> length rhs" "sz \<le> length res"
    and fits: "j * lhsStride < 2 ^ 31"
  shows "column_body T FT cj0 cj1 sz lhs lhsStride rhs alpha cjAlpha j res =
     Some (acc res (column_delta T FT cj0 cj1 sz lhs lhsStride rhs alpha cjAlpha j))"
proof -
  let ?A0 = "j * lhsStride"
  let ?t1 = "cjAlpha * rhs ! j"
  let ?starti = "if FT then 0 else j + 1"
  let ?endi = "if FT then j else sz"
  let ?D = "\<lambda>i. pmul T cj0 (lhs ! (?A0 + i)) ?t1"
  let ?E = "\<lambda>i. pmul T cj1 (lhs ! (?A0 + i)) (rhs ! i)"
  let ?r1 = "acc res (\<lambda>m. if m = j then pmul T cj0 (lhs ! (?A0 + j)) ?t1 else 0)"
  have se: "?starti \<le> ?endi" "?endi \<le> sz" using j by auto
  have rj: "rd rhs j = Some (rhs ! j)" "rd lhs (?A0 + j) = Some (lhs ! (?A0 + j))"
    using j b by (simp_all add: rd_Some)
  have a1: "add_at res j (pmul T cj0 (lhs ! (?A0 + j)) ?t1) = Some ?r1"
    using j b(3) by (intro add_at_acc) simp
  have "for_loop 1 ?starti (?starti + (?endi - ?starti)) (column_inner T cj0 cj1 lhs ?A0 rhs ?t1) (?r1, 0) =
     Some (acc ?r1 (\<lambda>k. if ?starti \<le> k \<and> k < ?starti + (?endi - ?starti) then ?D k else 0),
           0 + sum ?E {?starti..<?starti + (?endi - ?starti)})"
  proof (rule scalar_loop2 [where N = "length res"])
    fix k and r :: "'a list" and u :: 'a
    assume "?starti \<le> k" "k < ?starti + (?endi - ?starti)" "length r = length res"
    then show "column_inner T cj0 cj1 lhs ?A0 rhs ?t1 k (r, u) =
       Some (acc r (\<lambda>m. if m = k then ?D k else 0), u + ?E k)"
      using se b by (intro column_inner_step) linarith+
  qed simp
  then have loop: "for_loop 1 ?starti ?endi (column_inner T cj0 cj1 lhs ?A0 rhs ?t1) (?r1, 0) =
     Some (acc ?r1 (\<lambda>k. if ?starti \<le> k \<and> k < ?endi then ?D k else 0), 0 + sum ?E {?starti..<?endi})"
    using se(1) by simp
  let ?r2 = "acc ?r1 (\<lambda>k. if ?starti \<le> k \<and> k < ?endi then ?D k else 0)"
  have a2: "add_at ?r2 j (alpha * (0 + sum ?E {?starti..<?endi})) =
      Some (acc ?r2 (\<lambda>m. if m = j then alpha * (0 + sum ?E {?starti..<?endi}) else 0))"
    using j b(3) by (intro add_at_acc) simp
  have comb: "acc ?r2 (\<lambda>m. if m = j then alpha * (0 + sum ?E {?starti..<?endi}) else 0) =
      acc res (column_delta T FT cj0 cj1 sz lhs lhsStride rhs alpha cjAlpha j)"
    unfolding acc_acc by (rule acc_cong) (simp add: column_delta_def column_delta_at_def Let_def algebra_simps)
  have m: "int_mul j lhsStride = Some ?A0"
    using fits by (rule int_mul_fits)
  show ?thesis
    unfolding column_body_def Let_def
    by (simp only: m rj Option.bind.simps prod.case a1 loop a2 comb)
qed

lemma res_loop:
  fixes res :: "'a::comm_ring_1 list"
  assumes step: "0 < step"
    and body: "\<And>m r. m < M \<Longrightarrow> length r = N \<Longrightarrow> body (lo + m * step) r = Some (acc r (\<Delta> (lo + m * step)))"
    and len: "length res = N"
  shows "for_loop step lo (lo + M * step) body res = Some (acc res (\<lambda>k. \<Sum>m<M. \<Delta> (lo + m * step) k))"
proof -
  define I where "I m s \<longleftrightarrow> s = acc res (\<lambda>k. \<Sum>i<m. \<Delta> (lo + i * step) k)" for m s
  have "\<exists>s'. for_loop step lo (lo + M * step) body res = Some s' \<and> I M s'"
  proof (rule for_loop_inv [OF step])
    show "I 0 res" by (simp add: I_def)
  next
    fix m s assume "m < M" "I m s"
    then show "\<exists>s'. body (lo + m * step) s = Some s' \<and> I (Suc m) s'"
      using len by (simp add: I_def body acc_acc)
  qed
  then show ?thesis by (simp add: I_def)
qed

lemma sum_lessThan_shift: "(\<Sum>m<M. f (lo + m * 1)) = sum f {lo..<lo + (M::nat)}"
  using sum.shift_bounds_nat_ivl [of f 0 lo M] by (simp add: add.commute atLeast0LessThan)

lemma lhs_row_ok:
  assumes "sz = 0 \<or> (sz - 1) * lhsStride + sz \<le> length lhs" "j < sz"
  shows "j * lhsStride + sz \<le> length (lhs :: 'a list)"
proof -
  have "j * lhsStride \<le> (sz - 1) * lhsStride" using assms(2) by (intro mult_le_mono1) simp
  then show ?thesis using assms by linarith
qed

lemma lhs_row_fits:
  assumes "(sz - 1) * lhsStride < (2::nat) ^ 31" "j < sz"
  shows "j * lhsStride < 2 ^ 31"
proof -
  have "j * lhsStride \<le> (sz - 1) * lhsStride" using assms(2) by (intro mult_le_mono1) simp
  then show ?thesis using assms(1) by (rule le_less_trans)
qed

lemma product_columns_acc:
  fixes T :: "'a::comm_ring_1 scalar_traits"
  assumes P: "0 < PacketSize T" and ok: "buffers_ok sz lhs lhsStride rhs res"
  shows "product_columns T FT cj0 cj1 sz lhs lhsStride rhs resAddr alpha cjAlpha res =
     Some (acc res (columns_delta T FT cj0 cj1 sz lhs lhsStride rhs resAddr alpha cjAlpha))"
proof -
  define nb where "nb = (sz - 8) div 2"
  define span where "span = 2 * nb"
  define bound where "bound = (if FT then sz - span else span)"
  define jb where "jb = (if FT then bound else 0)"
  define lo where "lo = (if FT then 0 else bound)"
  define M where "M = sz - span"
  have sz: "sz < 2 ^ 31" and lhs: "sz = 0 \<or> (sz - 1) * lhsStride + sz \<le> length lhs"
    and rhs: "sz \<le> length rhs" and res: "sz \<le> length res"
    and fits: "(sz - 1) * lhsStride < 2 ^ 31"
    using ok by (simp_all add: buffers_ok_def)
  have bs: "blocked_span sz = span" using sz by (simp add: blocked_span_eq span_def nb_def)
  have span_le: "span \<le> sz" unfolding span_def nb_def by simp
  have e2: "(if FT then sz else bound) = jb + nb * 2"
    using span_le by (simp add: jb_def bound_def span_def)
  have e1: "(if FT then bound else sz) = lo + M * 1"
    using span_le by (simp add: lo_def bound_def M_def)
  let ?bd = "block_delta T FT cj0 cj1 sz lhs lhsStride rhs resAddr alpha cjAlpha"
  let ?cd = "column_delta T FT cj0 cj1 sz lhs lhsStride rhs alpha cjAlpha"
  have blocks: "for_loop 2 jb (jb + nb * 2)
       (block_body T FT cj0 cj1 sz lhs lhsStride rhs resAddr alpha cjAlpha) res =
     Some (acc res (\<lambda>k. \<Sum>m<nb. ?bd (jb + m * 2) k))"
  proof (rule res_loop [where N = "length res"])
    fix m and r :: "'a list" assume m: "m < nb" and r: "length r = length res"
    have "jb + m * 2 + 2 \<le> jb + nb * 2" using m by simp
    also have "\<dots> \<le> sz" using span_le by (simp add: jb_def bound_def span_def)
    finally have j: "jb + m * 2 + 1 < sz" by simp
    have "(jb + m * 2 + 1) * lhsStride + sz \<le> length lhs" using lhs j by (intro lhs_row_ok)
    moreover have "(jb + m * 2 + 1) * lhsStride < 2 ^ 31" using fits j by (rule lhs_row_fits)
    ultimately show "block_body T FT cj0 cj1 sz lhs lhsStride rhs resAddr alpha cjAlpha (jb + m * 2) r =
        Some (acc r (?bd (jb + m * 2)))"
      using j rhs res r by (intro block_body_acc P) simp_all
  qed simp_all
  let ?r1 = "acc res (\<lambda>k. \<Sum>m<nb. ?bd (jb + m * 2) k)"
  have cols: "for_loop 1 lo (lo + M * 1)
       (column_body T FT cj0 cj1 sz lhs lhsStride rhs alpha cjAlpha) ?r1 =
     Some (acc ?r1 (\<lambda>k. \<Sum>m<M. ?cd (lo + m * 1) k))"
  proof (rule res_loop [where N = "length res"])
    fix m and r :: "'a list" assume m: "m < M" and r: "length r = length res"
    have j: "lo + m * 1 < sz" using m span_le by (auto simp: lo_def bound_def M_def)
    have "(lo + m * 1) * lhsStride + sz \<le> length lhs" using lhs j by (intro lhs_row_ok)
    moreover have "(lo + m * 1) * lhsStride < 2 ^ 31" using fits j by (rule lhs_row_fits)
    ultimately show "column_body T FT cj0 cj1 sz lhs lhsStride rhs alpha cjAlpha (lo + m * 1) r =
        Some (acc r (?cd (lo + m * 1)))"
      using j rhs res r by (intro column_body_acc) simp_all
  qed simp_all
  have comb: "acc ?r1 (\<lambda>k. \<Sum>m<M. ?cd (lo + m * 1) k) =
      acc res (columns_delta T FT cj0 cj1 sz lhs lhsStride rhs resAddr alpha cjAlpha)"
    unfolding acc_acc
  proof (rule acc_cong)
    fix k
    have "(\<Sum>m<M. ?cd (lo + m * 1) k) = (\<Sum>j = lo..<lo + M. ?cd j k)"
      by (rule sum_lessThan_shift)
    moreover have "lo + M = (if FT then bound else sz)" using e1 by simp
    moreover have "span div 2 = nb" by (simp add: span_def)
    ultimately show "(\<Sum>m<nb. ?bd (jb + m * 2) k) + (\<Sum>m<M. ?cd (lo + m * 1) k) =
       columns_delta T FT cj0 cj1 sz lhs lhsStride rhs resAddr alpha cjAlpha k"
      unfolding columns_delta_def Let_def span_def [symmetric] nb_def [symmetric]
      unfolding bound_def [symmetric] jb_def [symmetric] lo_def [symmetric]
      by (simp only:)
  qed
  show ?thesis
    unfolding product_columns_def Let_def bs bound_def [symmetric]
    unfolding jb_def [symmetric] lo_def [symmetric] e1 e2
    by (simp only: blocks Option.bind.simps cols comb)
qed

subsection \<open>The operand copy and the whole call\<close>

lemma copy_rhs_Some:
  fixes rhs' :: "'a::{plus,times,zero} list"
  assumes "sz = 0 \<or> (sz - 1) * rhsIncr < length rhs'"
  shows "copy_rhs sz rhs' rhsIncr = Some (map (\<lambda>i. rhs' ! (i * rhsIncr)) [0..<sz])"
proof -
  define I where "I m r \<longleftrightarrow> r = map (\<lambda>i. if i < m then rhs' ! (i * rhsIncr) else 0) [0..<sz]"
    for m and r :: "'a list"
  have "\<exists>r. for_loop 1 0 (0 + sz * 1)
       (\<lambda>i r. do { v \<leftarrow> rd rhs' (i * rhsIncr); Some (r[i := v]) }) (replicate sz 0) = Some r \<and> I sz r"
  proof (rule for_loop_inv)
    show "I 0 (replicate sz 0)" by (auto simp: I_def intro!: nth_equalityI)
  next
    fix m and r :: "'a list" assume m: "m < sz" and "I m r"
    then have r: "r = map (\<lambda>i. if i < m then rhs' ! (i * rhsIncr) else 0) [0..<sz]"
      by (simp add: I_def)
    have "m * rhsIncr \<le> (sz - 1) * rhsIncr" using m by (intro mult_le_mono1) simp
    moreover have "(sz - 1) * rhsIncr < length rhs'" using assms m by auto
    ultimately have "m * rhsIncr < length rhs'" by (rule le_less_trans)
    then have "rd rhs' (m * rhsIncr) = Some (rhs' ! (m * rhsIncr))" by (rule rd_Some)
    moreover have "r[m := rhs' ! (m * rhsIncr)] =
        map (\<lambda>i. if i < Suc m then rhs' ! (i * rhsIncr) else 0) [0..<sz]"
      unfolding r using m by (auto intro!: nth_equalityI simp: nth_list_update less_Suc_eq)
    ultimately show "\<exists>s'. (do { v \<leftarrow> rd rhs' ((0 + m * 1) * rhsIncr); Some (r[0 + m * 1 := v]) }) = Some s'
        \<and> I (Suc m) s'"
      by (simp add: I_def)
  qed simp
  then show ?thesis by (simp add: copy_rhs_def I_def)
qed

lemma kernel_acc:
  fixes T :: "'a::comm_ring_1 scalar_traits"
  assumes ok: "valid_call T sz lhs lhsStride rhs' rhsIncr res"
  shows "ei_product_selfadjoint_vector T order uplo cl cr sz lhs lhsStride rhs' rhsIncr res resAddr alpha =
     Some (acc res (kernel_delta T order uplo cl cr sz lhs lhsStride (operand sz rhs' rhsIncr) resAddr alpha),
           scratch_trace sz rhsIncr)"
proof -
  have P: "0 < PacketSize T" and op: "sz = 0 \<or> (sz - 1) * rhsIncr < length rhs'"
    using ok by (simp_all add: valid_call_def)
  have len: "sz \<le> length (operand sz rhs' rhsIncr)"
    using op by (cases "sz = 0") (auto simp: operand_def)
  then have b: "buffers_ok sz lhs lhsStride (operand sz rhs' rhsIncr) res"
    using ok by (simp add: valid_call_def buffers_ok_def)
  note sweep = product_columns_acc [OF P b]
  show ?thesis
  proof (cases "rhsIncr = 1")
    case True
    then show ?thesis
      using sweep by (simp add: ei_product_selfadjoint_vector_def kernel_delta_def Let_def
          operand_def scratch_trace_def)
  next
    case False
    then show ?thesis
      using sweep copy_rhs_Some [OF op]
      by (simp add: ei_product_selfadjoint_vector_def kernel_delta_def Let_def
          operand_def scratch_trace_def)
  qed
qed

section \<open>What does not depend on the scalar arithmetic\<close>

text \<open>
  The lemmas of this section hold for every scalar type, exact or rounded: they follow the
  control flow and the memory accesses of the kernel and use no law of \<open>+\<close> and \<open>*\<close>.
\<close>

subsection \<open>A valid call returns\<close>

text \<open>
  No read or write leaves its buffer, no aligned access is misaligned and no row offset
  overflows: each loop body returns and keeps the length of the accumulator.
\<close>

lemma loop_returns:
  assumes "0 < step" "len s = N"
    and "\<And>m s. m < M \<Longrightarrow> len s = N \<Longrightarrow> \<exists>s'. body (lo + m * step) s = Some s' \<and> len s' = N"
  shows "\<exists>s'. for_loop step lo (lo + M * step) body s = Some s' \<and> len s' = (N::nat)"
  by (rule for_loop_inv [where I = "\<lambda>m s. len s = N"]) (use assms in auto)

lemma range_returns:
  assumes "lo \<le> hi" "len s = N"
    and "\<And>i s. lo \<le> i \<Longrightarrow> i < hi \<Longrightarrow> len s = N \<Longrightarrow> \<exists>s'. body i s = Some s' \<and> len s' = N"
  shows "\<exists>s'. for_loop 1 lo hi body s = Some s' \<and> len s' = (N::nat)"
proof -
  have "\<exists>s'. for_loop 1 lo (lo + (hi - lo) * 1) body s = Some s' \<and> len s' = N"
    by (rule loop_returns) (use assms in auto)
  then show ?thesis using assms(1) by simp
qed

lemma head_body_returns:
  assumes "A0 + i < length lhs" "A1 + i < length lhs" "i < length rhs" "i < length (fst s)"
  shows "\<exists>s'. head_body T lhs A0 A1 rhs t0 t1 i s = Some s' \<and> length (fst s') = length (fst s)"
  using assms by (cases s) (simp add: head_body_def rd_def add_at_def)

lemma tail_body_returns:
  assumes "A0 + i < length lhs" "A1 + i < length lhs" "i < length rhs" "i < length (fst s)"
  shows "\<exists>s'. tail_body T cj0 cj1 lhs A0 A1 rhs t0 t1 i s = Some s' \<and> length (fst s') = length (fst s)"
  using assms by (cases s) (simp add: tail_body_def rd_def add_at_def)

lemma column_inner_returns:
  assumes "A0 + i < length lhs" "i < length rhs" "i < length (fst s)"
  shows "\<exists>s'. column_inner T cj0 cj1 lhs A0 rhs t1 i s = Some s' \<and> length (fst s') = length (fst s)"
  using assms by (cases s) (simp add: column_inner_def rd_def add_at_def)

lemma packet_body_returns:
  assumes "(resAddr + k) mod PacketSize T = 0"
    and "A0 + k + PacketSize T \<le> length lhs" "A1 + k + PacketSize T \<le> length lhs"
      "k + PacketSize T \<le> length rhs" "k + PacketSize T \<le> length (fst s)"
    and "length p0 = PacketSize T" "length p1 = PacketSize T"
  shows "\<exists>s'. packet_body T cj0 cj1 lhs A0 A1 rhs resAddr p0 p1 k s = Some s'
           \<and> length (fst s') = length (fst s)"
  using assms
  by (cases s) (simp add: packet_body_def ei_ploadu_def ei_pload_def ei_pstore_def pmadd_packet_def
      add.assoc)

lemma block_diag_returns:
  assumes "A0 + (j + 1) < length lhs" "A1 + (j + 1) < length lhs" "j + 1 < length rhs"
    "j + 1 < length (fst s)"
  shows "\<exists>s'. block_diag T FT cj0 cj1 lhs A0 A1 rhs t0 t1 j s = Some s'
           \<and> length (fst s') = length (fst s)"
  using assms by (cases s; cases FT) (simp_all add: block_diag_def rd_def add_at_def)

lemma block_inner_returns:
  assumes P: "0 < PacketSize T" and r: "starti \<le> as" "as + q * PacketSize T \<le> endi"
    and al: "0 < q \<Longrightarrow> (resAddr + as) mod PacketSize T = 0"
    and b: "A0 + endi \<le> length lhs" "A1 + endi \<le> length lhs" "endi \<le> length rhs"
      "endi \<le> length (fst s)" "j + 1 < length (fst s)"
    and l: "length p0 = PacketSize T" "length p1 = PacketSize T"
  shows "\<exists>res'. block_inner T cj0 cj1 lhs A0 A1 rhs resAddr t0 t1 p0 p1 alpha j
           starti as (as + q * PacketSize T) endi p2 p3 s = Some res'
         \<and> length res' = length (fst s)"
proof -
  let ?P = "PacketSize T"
  let ?N = "length (fst s)"
  obtain res t2 t3 where s: "s = (res, t2, t3)" by (cases s)
  have "\<exists>s'. for_loop 1 starti as (head_body T lhs A0 A1 rhs t0 t1) (res, t2, t3) = Some s'
          \<and> length (fst s') = ?N"
  proof (rule range_returns [OF r(1)])
    fix i and u :: "'a list \<times> 'a \<times> 'a" assume "starti \<le> i" "i < as" "length (fst u) = ?N"
    then show "\<exists>s'. head_body T lhs A0 A1 rhs t0 t1 i u = Some s' \<and> length (fst s') = ?N"
      using head_body_returns [of A0 i lhs A1 rhs u T t0 t1] r b by simp
  qed (simp add: s)
  then obtain res1 u1 v1 where h: "for_loop 1 starti as (head_body T lhs A0 A1 rhs t0 t1) (res, t2, t3)
      = Some (res1, u1, v1)" and n1: "length res1 = ?N"
    by (metis fst_conv prod_cases3)
  have "\<exists>s'. for_loop ?P as (as + q * ?P) (packet_body T cj0 cj1 lhs A0 A1 rhs resAddr p0 p1)
            (res1, p2, p3) = Some s' \<and> length (fst s') = ?N"
  proof (rule loop_returns [OF P])
    fix m and u :: "'a list \<times> 'a list \<times> 'a list" assume m: "m < q" and u: "length (fst u) = ?N"
    have "Suc m * ?P \<le> q * ?P" using m by (intro mult_le_mono1) simp
    then have le: "as + m * ?P + ?P \<le> endi" using r(2) by simp
    have "(resAddr + as) mod ?P = 0" using al m by simp
    then have "(resAddr + as + m * ?P) mod ?P = 0" by simp
    then have al': "(resAddr + (as + m * ?P)) mod ?P = 0" by (simp add: add.assoc)
    show "\<exists>s'. packet_body T cj0 cj1 lhs A0 A1 rhs resAddr p0 p1 (as + m * ?P) u = Some s'
        \<and> length (fst s') = ?N"
      using packet_body_returns [OF al' _ _ _ _ l, of A0 lhs A1 rhs u cj0 cj1] le b u by simp
  qed (simp add: n1)
  then obtain res2 q2 q3 where p: "for_loop ?P as (as + q * ?P)
      (packet_body T cj0 cj1 lhs A0 A1 rhs resAddr p0 p1) (res1, p2, p3) = Some (res2, q2, q3)"
    and n2: "length res2 = ?N"
    by (metis fst_conv prod_cases3)
  have "\<exists>s'. for_loop 1 (as + q * ?P) endi (tail_body T cj0 cj1 lhs A0 A1 rhs t0 t1) (res2, u1, v1) = Some s'
          \<and> length (fst s') = ?N"
  proof (rule range_returns [OF r(2)])
    fix i and u :: "'a list \<times> 'a \<times> 'a" assume "as + q * ?P \<le> i" "i < endi" "length (fst u) = ?N"
    then show "\<exists>s'. tail_body T cj0 cj1 lhs A0 A1 rhs t0 t1 i u = Some s' \<and> length (fst s') = ?N"
      using tail_body_returns [of A0 i lhs A1 rhs u T cj0 cj1 t0 t1] r b by simp
  qed (simp add: n2)
  then obtain res3 u3 v3 where t: "for_loop 1 (as + q * ?P) endi
      (tail_body T cj0 cj1 lhs A0 A1 rhs t0 t1) (res2, u1, v1) = Some (res3, u3, v3)"
    and n3: "length res3 = ?N"
    by (metis fst_conv prod_cases3)
  show ?thesis
    unfolding block_inner_def s using b(5) n3
    by (simp add: h p t add_at_def s del: One_nat_def)
qed

lemma block_body_returns:
  assumes P: "0 < PacketSize T"
    and j: "j + 1 < sz"
    and b: "(j + 1) * lhsStride + sz \<le> length lhs" "sz \<le> length rhs" "sz \<le> length res"
    and fits: "(j + 1) * lhsStride < 2 ^ 31"
  shows "\<exists>res'. block_body T FT cj0 cj1 sz lhs lhsStride rhs resAddr alpha cjAlpha j res = Some res'
           \<and> length res' = length res"
proof -
  let ?P = "PacketSize T"
  let ?A0 = "j * lhsStride"
  let ?A1 = "(j + 1) * lhsStride"
  let ?t0 = "cjAlpha * rhs ! j"
  let ?t1 = "cjAlpha * rhs ! (j + 1)"
  let ?starti = "if FT then 0 else j + 2"
  let ?endi = "if FT then j else sz"
  let ?as = "?starti + ei_alignmentOffset ?P (resAddr + ?starti) (?endi - ?starti)"
  let ?q = "(?endi - ?as) div ?P"
  have se: "?starti \<le> ?endi" "?endi \<le> sz" using j by auto
  have r: "?starti \<le> ?as" "?as \<le> ?endi"
    using alignmentOffset_le [of ?P "resAddr + ?starti" "?endi - ?starti"] se(1) by linarith+
  have qle: "?as + ?q * ?P \<le> ?endi"
  proof -
    have "?q * ?P \<le> ?endi - ?as" by (rule div_times_less_eq_dividend)
    then show ?thesis using r(2) by linarith
  qed
  have al: "(resAddr + ?as) mod ?P = 0" if "0 < ?q"
  proof -
    have "?P \<le> ?endi - ?as" using that by (simp only: div_greater_zero_iff)
    then have "?as < ?endi" using P by linarith
    then have "ei_alignmentOffset ?P (resAddr + ?starti) (?endi - ?starti) < ?endi - ?starti" by linarith
    from alignmentOffset_aligned [OF P this] show ?thesis by (simp add: add.assoc)
  qed
  have lA0: "?A0 + sz \<le> length lhs" using b(1) by simp
  have rj: "rd rhs j = Some (rhs ! j)" "rd rhs (j + 1) = Some (rhs ! (j + 1))"
    using j b(2) by (simp_all add: rd_Some)
  have "j * lhsStride \<le> (j + 1) * lhsStride" by simp
  then have "j * lhsStride < 2 ^ 31" using fits by (rule le_less_trans)
  then have m: "int_mul j lhsStride = Some ?A0" "int_mul (j + 1) lhsStride = Some ?A1"
    using fits by (simp_all only: int_mul_fits)
  have P0: "(?P = 0) = False" using P by simp
  obtain s1 where d: "block_diag T FT cj0 cj1 lhs ?A0 ?A1 rhs ?t0 ?t1 j (res, 0, 0) = Some s1"
    and n1: "length (fst s1) = length res"
    using block_diag_returns [of ?A0 j lhs ?A1 rhs "(res, 0, 0)" T FT cj0 cj1 ?t0 ?t1] j b lA0
    by auto
  have "\<exists>res'. block_inner T cj0 cj1 lhs ?A0 ?A1 rhs resAddr ?t0 ?t1
       (ei_pset1 ?P ?t0) (ei_pset1 ?P ?t1) alpha j ?starti ?as (?as + ?q * ?P) ?endi
       (ei_pset1 ?P 0) (ei_pset1 ?P 0) s1 = Some res' \<and> length res' = length (fst s1)"
  proof (rule block_inner_returns [OF P r(1) qle al])
    show "j + 1 < length (fst s1)" using j b(3) n1 by simp
  qed (use lA0 b se(2) n1 in \<open>simp_all add: ei_pset1_def\<close>)
  then obtain res' where i: "block_inner T cj0 cj1 lhs ?A0 ?A1 rhs resAddr ?t0 ?t1
       (ei_pset1 ?P ?t0) (ei_pset1 ?P ?t1) alpha j ?starti ?as (?as + ?q * ?P) ?endi
       (ei_pset1 ?P 0) (ei_pset1 ?P 0) s1 = Some res'" and n2: "length res' = length res"
    using n1 by auto
  have "block_body T FT cj0 cj1 sz lhs lhsStride rhs resAddr alpha cjAlpha j res = Some res'"
    unfolding block_body_def Let_def
    by (simp only: m rj Option.bind.simps P0 if_False d i)
  then show ?thesis using n2 by simp
qed

lemma column_body_returns:
  assumes j: "j < sz"
    and b: "j * lhsStride + sz \<le> length lhs" "sz \<le> length rhs" "sz \<le> length res"
    and fits: "j * lhsStride < 2 ^ 31"
  shows "\<exists>res'. column_body T FT cj0 cj1 sz lhs lhsStride rhs alpha cjAlpha j res = Some res'
           \<and> length res' = length res"
proof -
  let ?A0 = "j * lhsStride"
  let ?t1 = "cjAlpha * rhs ! j"
  let ?starti = "if FT then 0 else j + 1"
  let ?endi = "if FT then j else sz"
  let ?r1 = "res[j := res ! j + pmul T cj0 (lhs ! (?A0 + j)) ?t1]"
  have se: "?starti \<le> ?endi" "?endi \<le> sz" using j by auto
  have rj: "rd rhs j = Some (rhs ! j)" "rd lhs (?A0 + j) = Some (lhs ! (?A0 + j))"
    using j b by (simp_all add: rd_Some)
  have m: "int_mul j lhsStride = Some ?A0" using fits by (rule int_mul_fits)
  have a1: "add_at res j (pmul T cj0 (lhs ! (?A0 + j)) ?t1) = Some ?r1"
    using j b(3) by (simp add: add_at_def)
  have "\<exists>s'. for_loop 1 ?starti ?endi (column_inner T cj0 cj1 lhs ?A0 rhs ?t1) (?r1, 0) = Some s'
          \<and> length (fst s') = length res"
  proof (rule range_returns [OF se(1)])
    fix i and u :: "'a list \<times> 'a" assume "?starti \<le> i" "i < ?endi" "length (fst u) = length res"
    then show "\<exists>s'. column_inner T cj0 cj1 lhs ?A0 rhs ?t1 i u = Some s' \<and> length (fst s') = length res"
      using column_inner_returns [of ?A0 i lhs rhs u T cj0 cj1 ?t1] se(2) b by simp
  qed simp
  then obtain r2 t2 where l: "for_loop 1 ?starti ?endi (column_inner T cj0 cj1 lhs ?A0 rhs ?t1) (?r1, 0)
      = Some (r2, t2)" and n: "length r2 = length res"
    by (metis fst_conv surj_pair)
  have a2: "add_at r2 j (alpha * t2) = Some (r2[j := r2 ! j + alpha * t2])"
    using j b(3) n by (simp add: add_at_def)
  have "column_body T FT cj0 cj1 sz lhs lhsStride rhs alpha cjAlpha j res =
      Some (r2[j := r2 ! j + alpha * t2])"
    unfolding column_body_def Let_def
    by (simp only: m rj Option.bind.simps prod.case a1 l a2)
  then show ?thesis using n by simp
qed

lemma product_columns_returns:
  assumes P: "0 < PacketSize T" and ok: "buffers_ok sz lhs lhsStride rhs res"
  shows "\<exists>res'. product_columns T FT cj0 cj1 sz lhs lhsStride rhs resAddr alpha cjAlpha res = Some res'
           \<and> length res' = length res"
proof -
  define nb where "nb = (sz - 8) div 2"
  define span where "span = 2 * nb"
  define bound where "bound = (if FT then sz - span else span)"
  define jb where "jb = (if FT then bound else 0)"
  define lo where "lo = (if FT then 0 else bound)"
  define M where "M = sz - span"
  have sz: "sz < 2 ^ 31" and lhs: "sz = 0 \<or> (sz - 1) * lhsStride + sz \<le> length lhs"
    and rhs: "sz \<le> length rhs" and res: "sz \<le> length res"
    and fits: "(sz - 1) * lhsStride < 2 ^ 31"
    using ok by (simp_all add: buffers_ok_def)
  have bs: "blocked_span sz = span" using sz by (simp add: blocked_span_eq span_def nb_def)
  have span_le: "span \<le> sz" unfolding span_def nb_def by simp
  have e2: "(if FT then sz else bound) = jb + nb * 2"
    using span_le by (simp add: jb_def bound_def span_def)
  have e1: "(if FT then bound else sz) = lo + M * 1"
    using span_le by (simp add: lo_def bound_def M_def)
  have "\<exists>r. for_loop 2 jb (jb + nb * 2)
       (block_body T FT cj0 cj1 sz lhs lhsStride rhs resAddr alpha cjAlpha) res = Some r
       \<and> length r = length res"
  proof (rule loop_returns)
    fix m and r :: "'a list" assume m: "m < nb" and r: "length r = length res"
    have "jb + m * 2 + 2 \<le> jb + nb * 2" using m by simp
    also have "\<dots> \<le> sz" using span_le by (simp add: jb_def bound_def span_def)
    finally have j: "jb + m * 2 + 1 < sz" by simp
    have "(jb + m * 2 + 1) * lhsStride + sz \<le> length lhs" using lhs j by (intro lhs_row_ok)
    moreover have "(jb + m * 2 + 1) * lhsStride < 2 ^ 31" using fits j by (rule lhs_row_fits)
    ultimately show "\<exists>s'. block_body T FT cj0 cj1 sz lhs lhsStride rhs resAddr alpha cjAlpha (jb + m * 2) r =
        Some s' \<and> length s' = length res"
      using block_body_returns [OF P j, of lhsStride lhs rhs r FT cj0 cj1 resAddr alpha cjAlpha] rhs res r
      by simp
  qed simp_all
  then obtain r1 where blocks: "for_loop 2 jb (jb + nb * 2)
       (block_body T FT cj0 cj1 sz lhs lhsStride rhs resAddr alpha cjAlpha) res = Some r1"
    and n1: "length r1 = length res" by auto
  have "\<exists>r. for_loop 1 lo (lo + M * 1)
       (column_body T FT cj0 cj1 sz lhs lhsStride rhs alpha cjAlpha) r1 = Some r
       \<and> length r = length res"
  proof (rule loop_returns)
    fix m and r :: "'a list" assume m: "m < M" and r: "length r = length res"
    have j: "lo + m * 1 < sz" using m span_le by (auto simp: lo_def bound_def M_def)
    have "(lo + m * 1) * lhsStride + sz \<le> length lhs" using lhs j by (intro lhs_row_ok)
    moreover have "(lo + m * 1) * lhsStride < 2 ^ 31" using fits j by (rule lhs_row_fits)
    ultimately show "\<exists>s'. column_body T FT cj0 cj1 sz lhs lhsStride rhs alpha cjAlpha (lo + m * 1) r =
        Some s' \<and> length s' = length res"
      using column_body_returns [OF j, of lhsStride lhs rhs r T FT cj0 cj1 alpha cjAlpha] rhs res r
      by simp
  qed (simp_all add: n1)
  then obtain r2 where cols: "for_loop 1 lo (lo + M * 1)
       (column_body T FT cj0 cj1 sz lhs lhsStride rhs alpha cjAlpha) r1 = Some r2"
    and n2: "length r2 = length res" by auto
  have "product_columns T FT cj0 cj1 sz lhs lhsStride rhs resAddr alpha cjAlpha res = Some r2"
    unfolding product_columns_def Let_def bs bound_def [symmetric]
    unfolding jb_def [symmetric] lo_def [symmetric] e1 e2
    by (simp only: blocks Option.bind.simps cols)
  then show ?thesis using n2 by simp
qed

lemma kernel_returns:
  fixes T :: "'a::{plus,times,zero} scalar_traits"
  assumes ok: "valid_call T sz lhs lhsStride rhs' rhsIncr res"
  shows "\<exists>r. ei_product_selfadjoint_vector T order uplo cl cr sz lhs lhsStride rhs' rhsIncr res resAddr alpha =
           Some (r, scratch_trace sz rhsIncr) \<and> length r = length res"
proof -
  have P: "0 < PacketSize T" and op: "sz = 0 \<or> (sz - 1) * rhsIncr < length rhs'"
    using ok by (simp_all add: valid_call_def)
  have len: "sz \<le> length (operand sz rhs' rhsIncr)"
    using op by (cases "sz = 0") (auto simp: operand_def)
  then have b: "buffers_ok sz lhs lhsStride (operand sz rhs' rhsIncr) res"
    using ok by (simp add: valid_call_def buffers_ok_def)
  let ?FT = "(order = RowMajor) = (uplo = LowerTriangular)"
  let ?cj0 = "(IsComplex T \<and> (cl \<noteq> (order = RowMajor)), cr)"
  let ?cj1 = "(IsComplex T \<and> (cl \<noteq> (\<not> order = RowMajor)), cr)"
  let ?ca = "if cr then ei_conj T alpha else alpha"
  obtain r where sweep: "product_columns T ?FT ?cj0 ?cj1 sz lhs lhsStride (operand sz rhs' rhsIncr)
      resAddr alpha ?ca res = Some r" and n: "length r = length res"
    using product_columns_returns [OF P b, of ?FT ?cj0 ?cj1 resAddr alpha ?ca] by auto
  have "ei_product_selfadjoint_vector T order uplo cl cr sz lhs lhsStride rhs' rhsIncr res resAddr alpha =
           Some (r, scratch_trace sz rhsIncr)"
  proof (cases "rhsIncr = 1")
    case True
    then show ?thesis
      using sweep
      by (simp add: ei_product_selfadjoint_vector_def Let_def operand_def scratch_trace_def)
  next
    case False
    then show ?thesis
      using sweep copy_rhs_Some [OF op]
      by (simp add: ei_product_selfadjoint_vector_def Let_def operand_def scratch_trace_def)
  qed
  then show ?thesis using n by simp
qed

subsection \<open>The copy of a strided operand\<close>

text \<open>
  The copy does not depend on the scalar arithmetic: for every scalar type, rounded ones
  included, the call with stride 2 is the call with stride 1 on the de-interleaved values,
  fault for fault, between the allocation and the release of the scratch buffer.
\<close>

lemma strided_call_any_scalar:
  fixes T :: "'a::{plus,times,zero} scalar_traits"
  assumes "sz = 0 \<or> (sz - 1) * 2 < length rhs'"
  shows "ei_product_selfadjoint_vector T order uplo cl cr sz lhs lhsStride rhs' 2 res resAddr alpha =
     map_option (\<lambda>(r, h). (r, [StackNew sz, StackDelete sz]))
       (ei_product_selfadjoint_vector T order uplo cl cr sz lhs lhsStride
          (map (\<lambda>i. rhs' ! (i * 2)) [0..<sz]) 1 res resAddr alpha)"
  unfolding ei_product_selfadjoint_vector_def Let_def copy_rhs_Some [OF assms]
  by (simp split: Option.bind_split)

subsection \<open>Only the stored triangle is read\<close>

text \<open>
  A loop whose body is replaced by one that agrees with it at the indices it visits gives
  the same outcome; the bodies of the kernel read the matrix buffer at indices of the
  stored triangle only, so two buffers with the same reads there give the same call.
\<close>

lemma for_loop_cong_bodies:
  assumes "\<And>k s. lo + k * step < n \<Longrightarrow> body (lo + k * step) s = body' (lo + k * step) s"
  shows "for_loop step lo n body s = for_loop step lo n body' s"
  using assms
proof (induction step lo n body s rule: for_loop.induct)
  case (1 step i n body s)
  show ?case
  proof (cases "i < n \<and> step \<noteq> 0")
    case False
    then show ?thesis by (simp add: for_loop.simps [of step i])
  next
    case True
    have b: "body i s = body' i s" using "1.prems" [of 0 s] True by simp
    show ?thesis
    proof (cases "body i s")
      case None
      then show ?thesis using b True by (simp add: for_loop.simps [of step i])
    next
      case (Some s')
      have "for_loop step (i + step) n body s' = for_loop step (i + step) n body' s'"
      proof (rule "1.IH")
        show "i < n" "step \<noteq> 0" "body i s = Some s'" using True Some by simp_all
      next
        fix k t assume "i + step + k * step < n"
        then show "body (i + step + k * step) t = body' (i + step + k * step) t"
          using "1.prems" [of "Suc k" t] by (simp add: add.assoc)
      qed
      moreover have "for_loop step i n body s = for_loop step (i + step) n body s'"
        using True Some by (simp add: for_loop.simps [of step i n body])
      moreover have "for_loop step i n body' s = for_loop step (i + step) n body' s'"
        using True Some b by (simp add: for_loop.simps [of step i n body'])
      ultimately show ?thesis by simp
    qed
  qed
qed

lemma for_loop_cong_range:
  assumes "\<And>i s. lo \<le> i \<Longrightarrow> i < n \<Longrightarrow> body i s = body' i s"
  shows "for_loop step lo n body s = for_loop step lo n body' s"
  by (rule for_loop_cong_bodies) (simp add: assms)

lemma ploadu_cong:
  assumes P: "0 < P" and e: "\<And>m. m < P \<Longrightarrow> rd lhs (k + m) = rd lhs' (k + m)"
  shows "ei_ploadu P lhs k = ei_ploadu P lhs' k"
proof -
  have l: "rd lhs (k + (P - 1)) = rd lhs' (k + (P - 1))" using P by (intro e) simp
  have b: "k + P \<le> length lhs \<longleftrightarrow> k + P \<le> length lhs'"
  proof -
    have "k + P \<le> length buf \<longleftrightarrow> rd buf (k + (P - 1)) \<noteq> None" for buf :: "'a list"
      using P by (auto simp: rd_def)
    then show ?thesis using l by simp
  qed
  show ?thesis
  proof (cases "k + P \<le> length lhs")
    case False
    then show ?thesis using b by (simp add: ei_ploadu_def)
  next
    case True
    have "take P (drop k lhs) = take P (drop k lhs')"
    proof (rule nth_equalityI)
      show "length (take P (drop k lhs)) = length (take P (drop k lhs'))" using True b by simp
    next
      fix m assume "m < length (take P (drop k lhs))"
      then have m: "m < P" by simp
      then have "rd lhs (k + m) = rd lhs' (k + m)" by (rule e)
      moreover have "k + m < length lhs" "k + m < length lhs'" using m True b by linarith+
      ultimately have "lhs ! (k + m) = lhs' ! (k + m)" by (simp add: rd_def)
      then show "take P (drop k lhs) ! m = take P (drop k lhs') ! m"
        using m True b by simp
    qed
    then show ?thesis using True b by (simp add: ei_ploadu_def)
  qed
qed

lemma column_body_cong:
  assumes j: "j < sz"
    and e: "\<And>c i. c < sz \<Longrightarrow> i < sz \<Longrightarrow> (if FT then i \<le> c else c \<le> i) \<Longrightarrow>
              rd lhs (c * lhsStride + i) = rd lhs' (c * lhsStride + i)"
  shows "column_body T FT cj0 cj1 sz lhs lhsStride rhs alpha cjAlpha j res =
         column_body T FT cj0 cj1 sz lhs' lhsStride rhs alpha cjAlpha j res"
proof (cases "int_mul j lhsStride")
  case None
  then show ?thesis by (simp add: column_body_def)
next
  case (Some A0)
  then have A0: "A0 = j * lhsStride" by (simp add: int_mul_def split: if_splits)
  have d: "rd lhs (A0 + j) = rd lhs' (A0 + j)" unfolding A0 using j by (intro e) simp_all
  have l: "for_loop 1 (if FT then 0 else j + 1) (if FT then j else sz)
             (column_inner T cj0 cj1 lhs A0 rhs t1) s =
           for_loop 1 (if FT then 0 else j + 1) (if FT then j else sz)
             (column_inner T cj0 cj1 lhs' A0 rhs t1) s" for t1 s
  proof (rule for_loop_cong_range)
    fix i s assume i: "(if FT then 0 else j + 1) \<le> i" "i < (if FT then j else sz)"
    have "rd lhs (A0 + i) = rd lhs' (A0 + i)"
      unfolding A0 using i j by (intro e) (auto split: if_splits)
    then show "column_inner T cj0 cj1 lhs A0 rhs t1 i s = column_inner T cj0 cj1 lhs' A0 rhs t1 i s"
      by (simp add: column_inner_def)
  qed
  show ?thesis
    unfolding column_body_def Let_def Some Option.bind.simps d l by (rule refl)
qed

lemma block_diag_cong:
  assumes "rd lhs (A0 + j) = rd lhs' (A0 + j)" "rd lhs (A1 + (j + 1)) = rd lhs' (A1 + (j + 1))"
    and "FT \<Longrightarrow> rd lhs (A1 + j) = rd lhs' (A1 + j)"
    and "\<not> FT \<Longrightarrow> rd lhs (A0 + (j + 1)) = rd lhs' (A0 + (j + 1))"
  shows "block_diag T FT cj0 cj1 lhs A0 A1 rhs t0 t1 j = block_diag T FT cj0 cj1 lhs' A0 A1 rhs t0 t1 j"
  using assms by (cases FT) (simp_all add: block_diag_def)

lemma block_inner_cong:
  assumes P: "0 < PacketSize T" and r: "starti \<le> as" "as + q * PacketSize T \<le> endi"
    and e0: "\<And>i. starti \<le> i \<Longrightarrow> i < endi \<Longrightarrow> rd lhs (A0 + i) = rd lhs' (A0 + i)"
    and e1: "\<And>i. starti \<le> i \<Longrightarrow> i < endi \<Longrightarrow> rd lhs (A1 + i) = rd lhs' (A1 + i)"
  shows "block_inner T cj0 cj1 lhs A0 A1 rhs resAddr t0 t1 p0 p1 alpha j
           starti as (as + q * PacketSize T) endi p2 p3 =
         block_inner T cj0 cj1 lhs' A0 A1 rhs resAddr t0 t1 p0 p1 alpha j
           starti as (as + q * PacketSize T) endi p2 p3"
proof -
  let ?P = "PacketSize T"
  have h: "for_loop 1 starti as (head_body T lhs A0 A1 rhs t0 t1) =
           for_loop 1 starti as (head_body T lhs' A0 A1 rhs t0 t1)"
  proof (intro ext for_loop_cong_range)
    fix i s assume "starti \<le> i" "i < as"
    then have "rd lhs (A0 + i) = rd lhs' (A0 + i)" "rd lhs (A1 + i) = rd lhs' (A1 + i)"
      using r by (intro e0 e1; linarith)+
    then show "head_body T lhs A0 A1 rhs t0 t1 i s = head_body T lhs' A0 A1 rhs t0 t1 i s"
      by (simp add: head_body_def)
  qed
  have p: "for_loop ?P as (as + q * ?P) (packet_body T cj0 cj1 lhs A0 A1 rhs resAddr p0 p1) =
           for_loop ?P as (as + q * ?P) (packet_body T cj0 cj1 lhs' A0 A1 rhs resAddr p0 p1)"
  proof (intro ext for_loop_cong_bodies)
    fix k s assume "as + k * ?P < as + q * ?P"
    then have "k < q" by simp
    then have "Suc k * ?P \<le> q * ?P" by (intro mult_le_mono1) simp
    then have le: "as + k * ?P + ?P \<le> endi" using r(2) by simp
    have "ei_ploadu ?P lhs (A0 + (as + k * ?P)) = ei_ploadu ?P lhs' (A0 + (as + k * ?P))"
    proof (rule ploadu_cong [OF P])
      fix m assume "m < ?P"
      then have "rd lhs (A0 + (as + k * ?P + m)) = rd lhs' (A0 + (as + k * ?P + m))"
        using r(1) le by (intro e0; linarith)
      then show "rd lhs (A0 + (as + k * ?P) + m) = rd lhs' (A0 + (as + k * ?P) + m)"
        by (simp only: add.assoc)
    qed
    moreover have "ei_ploadu ?P lhs (A1 + (as + k * ?P)) = ei_ploadu ?P lhs' (A1 + (as + k * ?P))"
    proof (rule ploadu_cong [OF P])
      fix m assume "m < ?P"
      then have "rd lhs (A1 + (as + k * ?P + m)) = rd lhs' (A1 + (as + k * ?P + m))"
        using r(1) le by (intro e1; linarith)
      then show "rd lhs (A1 + (as + k * ?P) + m) = rd lhs' (A1 + (as + k * ?P) + m)"
        by (simp only: add.assoc)
    qed
    ultimately show "packet_body T cj0 cj1 lhs A0 A1 rhs resAddr p0 p1 (as + k * ?P) s =
        packet_body T cj0 cj1 lhs' A0 A1 rhs resAddr p0 p1 (as + k * ?P) s"
      unfolding packet_body_def by (simp only:)
  qed
  have t: "for_loop 1 (as + q * ?P) endi (tail_body T cj0 cj1 lhs A0 A1 rhs t0 t1) =
           for_loop 1 (as + q * ?P) endi (tail_body T cj0 cj1 lhs' A0 A1 rhs t0 t1)"
  proof (intro ext for_loop_cong_range)
    fix i s assume "as + q * ?P \<le> i" "i < endi"
    then have "rd lhs (A0 + i) = rd lhs' (A0 + i)" "rd lhs (A1 + i) = rd lhs' (A1 + i)"
      using r by (intro e0 e1; linarith)+
    then show "tail_body T cj0 cj1 lhs A0 A1 rhs t0 t1 i s = tail_body T cj0 cj1 lhs' A0 A1 rhs t0 t1 i s"
      by (simp add: tail_body_def)
  qed
  show ?thesis unfolding block_inner_def h p t by (rule refl)
qed

lemma block_body_cong:
  assumes j: "j + 1 < sz"
    and e: "\<And>c i. c < sz \<Longrightarrow> i < sz \<Longrightarrow> (if FT then i \<le> c else c \<le> i) \<Longrightarrow>
              rd lhs (c * lhsStride + i) = rd lhs' (c * lhsStride + i)"
  shows "block_body T FT cj0 cj1 sz lhs lhsStride rhs resAddr alpha cjAlpha j res =
         block_body T FT cj0 cj1 sz lhs' lhsStride rhs resAddr alpha cjAlpha j res"
proof (cases "int_mul j lhsStride = None \<or> int_mul (j + 1) lhsStride = None \<or> PacketSize T = 0")
  case True
  then show ?thesis
    by (auto simp: block_body_def Let_def split: Option.bind_split)
next
  case False
  let ?P = "PacketSize T"
  let ?A0 = "j * lhsStride"
  let ?A1 = "(j + 1) * lhsStride"
  let ?starti = "if FT then 0 else j + 2"
  let ?endi = "if FT then j else sz"
  let ?as = "?starti + ei_alignmentOffset ?P (resAddr + ?starti) (?endi - ?starti)"
  let ?q = "(?endi - ?as) div ?P"
  from False have m: "int_mul j lhsStride = Some ?A0" "int_mul (j + 1) lhsStride = Some ?A1"
    and P: "0 < ?P" and P0: "(?P = 0) = False"
    by (auto simp: int_mul_def split: if_splits)
  have se: "?starti \<le> ?endi" "?endi \<le> sz" using j by auto
  have r: "?starti \<le> ?as" "?as \<le> ?endi"
    using alignmentOffset_le [of ?P "resAddr + ?starti" "?endi - ?starti"] se(1) by linarith+
  have qle: "?as + ?q * ?P \<le> ?endi"
  proof -
    have "?q * ?P \<le> ?endi - ?as" by (rule div_times_less_eq_dividend)
    then show ?thesis using r(2) by linarith
  qed
  have e0: "rd lhs (?A0 + i) = rd lhs' (?A0 + i)" if "?starti \<le> i" "i < ?endi" for i
    using that j by (intro e) (auto split: if_splits)
  have e1: "rd lhs (?A1 + i) = rd lhs' (?A1 + i)" if "?starti \<le> i" "i < ?endi" for i
    using that j by (intro e) (auto split: if_splits)
  have d: "block_diag T FT cj0 cj1 lhs ?A0 ?A1 rhs t0 t1 j = block_diag T FT cj0 cj1 lhs' ?A0 ?A1 rhs t0 t1 j"
    for t0 t1
    by (rule block_diag_cong; rule e; use j in \<open>auto split: if_splits\<close>)
  have i: "block_inner T cj0 cj1 lhs ?A0 ?A1 rhs resAddr t0 t1 p0 p1 alpha j
           ?starti ?as (?as + ?q * ?P) ?endi p2 p3 =
         block_inner T cj0 cj1 lhs' ?A0 ?A1 rhs resAddr t0 t1 p0 p1 alpha j
           ?starti ?as (?as + ?q * ?P) ?endi p2 p3" for t0 t1 p0 p1 p2 p3
    by (rule block_inner_cong [OF P r(1) qle e0 e1])
  show ?thesis
    unfolding block_body_def Let_def m Option.bind.simps P0 if_False d i by (rule refl)
qed

lemma product_columns_cong:
  assumes sz: "sz < 2 ^ 31"
    and e: "\<And>c i. c < sz \<Longrightarrow> i < sz \<Longrightarrow> (if FT then i \<le> c else c \<le> i) \<Longrightarrow>
              rd lhs (c * lhsStride + i) = rd lhs' (c * lhsStride + i)"
  shows "product_columns T FT cj0 cj1 sz lhs lhsStride rhs resAddr alpha cjAlpha res =
         product_columns T FT cj0 cj1 sz lhs' lhsStride rhs resAddr alpha cjAlpha res"
proof -
  define nb where "nb = (sz - 8) div 2"
  define span where "span = 2 * nb"
  define bound where "bound = (if FT then sz - span else span)"
  define jb where "jb = (if FT then bound else 0)"
  have bs: "blocked_span sz = span" using sz by (simp add: blocked_span_eq span_def nb_def)
  have span_le: "span \<le> sz" unfolding span_def nb_def by simp
  have e2: "(if FT then sz else bound) = jb + nb * 2"
    using span_le by (simp add: jb_def bound_def span_def)
  have blocks: "for_loop 2 jb (jb + nb * 2)
       (block_body T FT cj0 cj1 sz lhs lhsStride rhs resAddr alpha cjAlpha) =
     for_loop 2 jb (jb + nb * 2)
       (block_body T FT cj0 cj1 sz lhs' lhsStride rhs resAddr alpha cjAlpha)"
  proof (intro ext for_loop_cong_bodies)
    fix k s assume "jb + k * 2 < jb + nb * 2"
    then have "jb + k * 2 + 2 \<le> jb + nb * 2" by simp
    also have "\<dots> \<le> sz" using span_le by (simp add: jb_def bound_def span_def)
    finally have j: "jb + k * 2 + 1 < sz" by simp
    show "block_body T FT cj0 cj1 sz lhs lhsStride rhs resAddr alpha cjAlpha (jb + k * 2) s =
          block_body T FT cj0 cj1 sz lhs' lhsStride rhs resAddr alpha cjAlpha (jb + k * 2) s"
      by (rule block_body_cong [OF j]) (rule e)
  qed
  have cols: "for_loop 1 (if FT then 0 else bound) (if FT then bound else sz)
       (column_body T FT cj0 cj1 sz lhs lhsStride rhs alpha cjAlpha) =
     for_loop 1 (if FT then 0 else bound) (if FT then bound else sz)
       (column_body T FT cj0 cj1 sz lhs' lhsStride rhs alpha cjAlpha)"
  proof (intro ext for_loop_cong_range)
    fix j s assume "j < (if FT then bound else sz)"
    then have j: "j < sz" using span_le by (auto simp: bound_def split: if_splits)
    show "column_body T FT cj0 cj1 sz lhs lhsStride rhs alpha cjAlpha j s =
          column_body T FT cj0 cj1 sz lhs' lhsStride rhs alpha cjAlpha j s"
      by (rule column_body_cong [OF j]) (rule e)
  qed
  show ?thesis
    unfolding product_columns_def Let_def bs bound_def [symmetric]
    unfolding jb_def [symmetric] e2 blocks cols by (rule refl)
qed

lemma kernel_cong:
  fixes T :: "'a::{plus,times,zero} scalar_traits"
  assumes ok: "valid_call T sz lhs lhsStride rhs' rhsIncr res"
    and ok': "valid_call T sz lhs' lhsStride rhs' rhsIncr res"
    and agree: "agree_on_triangle order uplo sz lhsStride lhs lhs'"
  shows "ei_product_selfadjoint_vector T order uplo cl cr sz lhs lhsStride rhs' rhsIncr res resAddr alpha =
         ei_product_selfadjoint_vector T order uplo cl cr sz lhs' lhsStride rhs' rhsIncr res resAddr alpha"
proof -
  have sz: "sz < 2 ^ 31"
    and b: "sz = 0 \<or> (sz - 1) * lhsStride + sz \<le> length lhs"
           "sz = 0 \<or> (sz - 1) * lhsStride + sz \<le> length lhs'"
    using ok ok' by (simp_all add: valid_call_def)
  have e: "rd lhs (c * lhsStride + i) = rd lhs' (c * lhsStride + i)"
    if "c < sz" "i < sz" "if (order = RowMajor) = (uplo = LowerTriangular) then i \<le> c else c \<le> i" for c i
  proof -
    have "c * lhsStride + sz \<le> length lhs" "c * lhsStride + sz \<le> length lhs'"
      using b that(1) by (auto intro: lhs_row_ok)
    then have "c * lhsStride + i < length lhs" "c * lhsStride + i < length lhs'"
      using that(2) by linarith+
    moreover have "lhs ! (c * lhsStride + i) = lhs' ! (c * lhsStride + i)"
    proof (cases order)
      case RowMajor
      then show ?thesis
        using agree that by (cases uplo) (auto simp: agree_on_triangle_def in_triangle_def lhs_index_def)
    next
      case ColMajor
      then show ?thesis
        using agree that by (cases uplo) (auto simp: agree_on_triangle_def in_triangle_def lhs_index_def)
    qed
    ultimately show ?thesis by (simp add: rd_def)
  qed
  have "product_columns T ((order = RowMajor) = (uplo = LowerTriangular)) cj0 cj1 sz lhs lhsStride rhs resAddr alpha cjAlpha =
        product_columns T ((order = RowMajor) = (uplo = LowerTriangular)) cj0 cj1 sz lhs' lhsStride rhs resAddr alpha cjAlpha"
    for cj0 cj1 rhs cjAlpha
    by (intro ext product_columns_cong [OF sz]) (rule e)
  then show ?thesis
    unfolding ei_product_selfadjoint_vector_def Let_def by (simp only:)
qed

section \<open>Properties of the closed form\<close>

subsection \<open>A zero scale factor\<close>

lemma pmul_zero: "ei_conj T 0 = 0 \<Longrightarrow> pmul T cj a (0 * x) = (0 :: 'a::comm_ring_1)"
  by (simp add: pmul_def)

lemma block_delta_zero:
  assumes "ei_conj T 0 = 0"
  shows "block_delta T FT cj0 cj1 sz lhs lhsStride rhs resAddr 0 0 j k = 0"
  using assms by (simp add: block_delta_def block_delta_at_def Let_def pmul_def)

lemma column_delta_zero:
  assumes "ei_conj T 0 = 0"
  shows "column_delta T FT cj0 cj1 sz lhs lhsStride rhs 0 0 j k = 0"
  using assms by (simp add: column_delta_def column_delta_at_def Let_def pmul_def)

lemma kernel_delta_zero:
  assumes "ei_conj T 0 = 0"
  shows "kernel_delta T order uplo cl cr sz lhs lhsStride rhs resAddr 0 = (\<lambda>k. 0)"
  using assms
  by (intro ext) (simp add: kernel_delta_def columns_delta_def Let_def block_delta_zero column_delta_zero)

subsection \<open>Real scalars\<close>

lemma pmul_real: "pmul (real_traits P) cj = (\<lambda>x y. x * y)"
  by (intro ext) (simp add: pmul_def real_traits_def)

lemma pmadd_packet_real:
  "pmadd_packet (real_traits P) cj = (\<lambda>xs ys cs. map (\<lambda>(x, y, c). c + x * y) (zip xs (zip ys cs)))"
  by (intro ext) (simp add: pmadd_packet_def pmadd_def pmul_real)

lemma product_columns_real:
  "product_columns (real_traits P) FT cj0 cj1 sz lhs lhsStride rhs resAddr alpha cjAlpha =
   product_columns (real_traits P) FT cj0' cj1' sz lhs lhsStride rhs resAddr alpha cjAlpha"
  unfolding product_columns_def block_body_def block_diag_def block_inner_def column_body_def
    column_inner_def tail_body_def packet_body_def pmul_real pmadd_packet_real
  by (rule refl)

subsection \<open>The closed form against the dense reference\<close>

text \<open>
  Where the scalar head is empty or computes what the tail computes, a two-column
  iteration adds what two single-column iterations add; the sum over all columns is then
  split at the diagonal and compared with the reference term by term.
\<close>

lemma block_delta_at_no_head:
  assumes "as = starti \<or> (\<forall>a t. pmul T cj0 a t = t * a \<and> pmul T cj1 a t = ei_conj T a * t)"
  shows "block_delta_at T FT cj0 cj1 a0 a1 rhs alpha cjAlpha starti as endi j k =
         block_delta_at T FT cj0 cj1 a0 a1 rhs alpha cjAlpha starti starti endi j k"
proof -
  let ?t0 = "cjAlpha * rhs ! j" and ?t1 = "cjAlpha * rhs ! (j + 1)"
  have E: "(\<Sum>i = starti..<endi. if i < as then ei_conj T (a i) * rhs ! i else pmul T cj1 (a i) (rhs ! i))
      = (\<Sum>i = starti..<endi. if i < starti then ei_conj T (a i) * rhs ! i else pmul T cj1 (a i) (rhs ! i))" for a
    by (rule sum.cong) (use assms in auto)
  have D: "(if starti \<le> k \<and> k < endi then
              (if k < as then ?t0 * a0 k + ?t1 * a1 k
               else pmul T cj0 (a0 k) ?t0 + pmul T cj0 (a1 k) ?t1) else 0) =
           (if starti \<le> k \<and> k < endi then
              (if k < starti then ?t0 * a0 k + ?t1 * a1 k
               else pmul T cj0 (a0 k) ?t0 + pmul T cj0 (a1 k) ?t1) else 0)"
    using assms by auto
  show ?thesis
    unfolding block_delta_at_def Let_def E D by (rule refl)
qed

lemma block_delta_at_split_first:
  "block_delta_at T True cj0 cj1 a0 a1 rhs alpha cjAlpha 0 0 j j k =
     column_delta_at T cj0 cj1 a0 rhs alpha cjAlpha 0 j j k
   + column_delta_at T cj0 cj1 a1 rhs alpha cjAlpha 0 (j + 1) (j + 1) k"
proof -
  consider "k = j" | "k = j + 1" | "k < j" | "j + 1 < k" by linarith
  then show ?thesis
  proof cases
    case 1
    then show ?thesis by (simp add: block_delta_at_def column_delta_at_def Let_def algebra_simps)
  next
    case 2
    then show ?thesis by (simp add: block_delta_at_def column_delta_at_def Let_def algebra_simps)
  next
    case 3
    then show ?thesis by (simp add: block_delta_at_def column_delta_at_def Let_def algebra_simps)
  next
    case 4
    then show ?thesis by (simp add: block_delta_at_def column_delta_at_def Let_def algebra_simps)
  qed
qed

lemma block_delta_at_split_second:
  assumes "j + 1 < sz"
  shows "block_delta_at T False cj0 cj1 a0 a1 rhs alpha cjAlpha (j + 2) (j + 2) sz j k =
     column_delta_at T cj0 cj1 a0 rhs alpha cjAlpha (j + 1) sz j k
   + column_delta_at T cj0 cj1 a1 rhs alpha cjAlpha (j + 2) sz (j + 1) k"
proof -
  have s: "sum f {Suc j..<sz} = f (Suc j) + sum f {Suc (Suc j)..<sz}" for f :: "nat \<Rightarrow> 'a"
    using assms sum.atLeast_Suc_lessThan [of "Suc j" sz f] by simp
  consider "k = j" | "k = j + 1" | "k < j" | "j + 1 < k" by linarith
  then show ?thesis
  proof cases
    case 1
    then show ?thesis using assms by (simp add: block_delta_at_def column_delta_at_def Let_def s algebra_simps)
  next
    case 2
    then show ?thesis using assms by (simp add: block_delta_at_def column_delta_at_def Let_def s algebra_simps)
  next
    case 3
    then show ?thesis using assms by (simp add: block_delta_at_def column_delta_at_def Let_def s algebra_simps)
  next
    case 4
    then show ?thesis using assms by (simp add: block_delta_at_def column_delta_at_def Let_def s algebra_simps)
  qed
qed

lemma alignmentOffset_one: "ei_alignmentOffset (Suc 0) addr mx = 0"
  by (simp add: ei_alignmentOffset_def)

lemma block_delta_split:
  assumes j: "j + 1 < sz"
    and benign: "PacketSize T = 1 \<or> (\<forall>a t. pmul T cj0 a t = t * a \<and> pmul T cj1 a t = ei_conj T a * t)"
  shows "block_delta T FT cj0 cj1 sz lhs lhsStride rhs resAddr alpha cjAlpha j k =
     column_delta T FT cj0 cj1 sz lhs lhsStride rhs alpha cjAlpha j k
   + column_delta T FT cj0 cj1 sz lhs lhsStride rhs alpha cjAlpha (j + 1) k"
proof -
  let ?starti = "if FT then 0 else j + 2"
  let ?endi = "if FT then j else sz"
  let ?as = "?starti + ei_alignmentOffset (PacketSize T) (resAddr + ?starti) (?endi - ?starti)"
  have b: "?as = ?starti \<or> (\<forall>a t. pmul T cj0 a t = t * a \<and> pmul T cj1 a t = ei_conj T a * t)"
    using benign by (auto simp: alignmentOffset_one)
  show ?thesis
    unfolding block_delta_def Let_def block_delta_at_no_head [OF b] column_delta_def
    using block_delta_at_split_first [of T cj0 cj1 _ _ rhs alpha cjAlpha j k]
      block_delta_at_split_second [OF j, of T cj0 cj1 _ _ rhs alpha cjAlpha k]
    by (cases FT) simp_all
qed

lemma sum_pairs:
  fixes f :: "nat \<Rightarrow> 'a::comm_monoid_add"
  shows "(\<Sum>m<nb. f (jb + m * 2) + f (jb + m * 2 + 1)) = sum f {jb..<jb + 2 * nb}"
proof (induction nb)
  case 0
  then show ?case by simp
next
  case (Suc nb)
  have "sum f {jb..<jb + 2 * Suc nb} = sum f {jb..<jb + 2 * nb} + (f (jb + 2 * nb) + f (jb + 2 * nb + 1))"
    by (simp add: add.assoc)
  then show ?case using Suc by (simp add: mult.commute)
qed

lemma columns_delta_columns:
  assumes benign: "sz < 10 \<or> PacketSize T = 1 \<or>
      (\<forall>a t. pmul T cj0 a t = t * a \<and> pmul T cj1 a t = ei_conj T a * t)"
  shows "columns_delta T FT cj0 cj1 sz lhs lhsStride rhs resAddr alpha cjAlpha k =
         (\<Sum>j<sz. column_delta T FT cj0 cj1 sz lhs lhsStride rhs alpha cjAlpha j k)"
proof -
  define nb where "nb = (sz - 8) div 2"
  define jb where "jb = (if FT then sz - 2 * nb else 0)"
  let ?bd = "\<lambda>j. block_delta T FT cj0 cj1 sz lhs lhsStride rhs resAddr alpha cjAlpha j k"
  let ?cd = "\<lambda>j. column_delta T FT cj0 cj1 sz lhs lhsStride rhs alpha cjAlpha j k"
  have nb: "2 * nb \<le> sz" by (simp add: nb_def)
  have jb: "jb + 2 * nb \<le> sz" using nb by (simp add: jb_def)
  have "(\<Sum>m<nb. ?bd (jb + m * 2)) = (\<Sum>m<nb. ?cd (jb + m * 2) + ?cd (jb + m * 2 + 1))"
  proof (rule sum.cong [OF refl])
    fix m assume m: "m \<in> {..<nb}"
    then have "jb + m * 2 + 1 < sz" using jb by simp
    moreover have "\<not> sz < 10" using m by (auto simp: nb_def)
    then have "PacketSize T = 1 \<or>
        (\<forall>a t. pmul T cj0 a t = t * a \<and> pmul T cj1 a t = ei_conj T a * t)"
      using benign by simp
    ultimately show "?bd (jb + m * 2) = ?cd (jb + m * 2) + ?cd (jb + m * 2 + 1)"
      by (rule block_delta_split)
  qed
  also have "\<dots> = sum ?cd {jb..<jb + 2 * nb}" by (rule sum_pairs)
  finally have B: "(\<Sum>m<nb. ?bd (jb + m * 2)) = sum ?cd {jb..<jb + 2 * nb}" .
  have d: "2 * nb div 2 = nb" by simp
  have L: "columns_delta T FT cj0 cj1 sz lhs lhsStride rhs resAddr alpha cjAlpha k =
      (\<Sum>m<nb. ?bd (jb + m * 2)) +
      sum ?cd {(if FT then 0 else 2 * nb)..<(if FT then sz - 2 * nb else sz)}"
    unfolding columns_delta_def Let_def nb_def [symmetric] d jb_def by (cases FT) simp_all
  show ?thesis
  proof (cases FT)
    case True
    then have "columns_delta T FT cj0 cj1 sz lhs lhsStride rhs resAddr alpha cjAlpha k =
       sum ?cd {0..<sz - 2 * nb} + sum ?cd {sz - 2 * nb..<sz - 2 * nb + 2 * nb}"
      unfolding L B by (simp add: jb_def)
    also have "\<dots> = sum ?cd {0..<sz}"
      using nb by (simp add: sum.atLeastLessThan_concat)
    finally show ?thesis by (simp add: atLeast0LessThan)
  next
    case False
    then have "columns_delta T FT cj0 cj1 sz lhs lhsStride rhs resAddr alpha cjAlpha k =
       sum ?cd {0..<2 * nb} + sum ?cd {2 * nb..<sz}"
      unfolding L B by (simp add: jb_def)
    also have "\<dots> = sum ?cd {0..<sz}"
      using nb by (simp add: sum.atLeastLessThan_concat)
    finally show ?thesis by (simp add: atLeast0LessThan)
  qed
qed

lemma sum_column_delta:
  fixes T :: "'a::comm_ring_1 scalar_traits"
  shows "(\<Sum>j<sz. column_delta T FT cj0 cj1 sz lhs lhsStride rhs alpha cjAlpha j k) =
    (if k < sz then
       pmul T cj0 (lhs ! (k * lhsStride + k)) (cjAlpha * rhs ! k)
       + alpha * (\<Sum>i = (if FT then 0 else k + 1)..<(if FT then k else sz).
                     pmul T cj1 (lhs ! (k * lhsStride + i)) (rhs ! i))
       + (\<Sum>j = (if FT then k + 1 else 0)..<(if FT then sz else k).
             pmul T cj0 (lhs ! (j * lhsStride + k)) (cjAlpha * rhs ! j))
     else 0)"
proof -
  let ?P = "\<lambda>j. pmul T cj0 (lhs ! (j * lhsStride + j)) (cjAlpha * rhs ! j)
       + alpha * (\<Sum>i = (if FT then 0 else j + 1)..<(if FT then j else sz).
                     pmul T cj1 (lhs ! (j * lhsStride + i)) (rhs ! i))"
  let ?Q = "\<lambda>j. pmul T cj0 (lhs ! (j * lhsStride + k)) (cjAlpha * rhs ! j)"
  let ?B = "{j. (if FT then 0 else j + 1) \<le> k \<and> k < (if FT then j else sz)}"
  have "(\<Sum>j<sz. column_delta T FT cj0 cj1 sz lhs lhsStride rhs alpha cjAlpha j k) =
      (\<Sum>j<sz. (if j = k then ?P j else 0) + (if j \<in> ?B then ?Q j else 0))"
    by (rule sum.cong) (auto simp: column_delta_def column_delta_at_def Let_def)
  also have "\<dots> = (\<Sum>j<sz. if j = k then ?P j else 0) + (\<Sum>j<sz. if j \<in> ?B then ?Q j else 0)"
    by (rule sum.distrib)
  also have "(\<Sum>j<sz. if j = k then ?P j else 0) = (if k < sz then ?P k else 0)"
    by (simp add: sum.delta)
  also have "(\<Sum>j<sz. if j \<in> ?B then ?Q j else 0) = sum ?Q ({..<sz} \<inter> ?B)"
    by (simp add: sum.inter_restrict)
  also have "{..<sz} \<inter> ?B = (if k < sz then {(if FT then k + 1 else 0)..<(if FT then sz else k)} else {})"
    by (cases FT) auto
  finally show ?thesis by simp
qed

lemma conj_okD:
  assumes "conj_ok T"
  shows "ei_conj T (ei_conj T x) = x" "ei_conj T (x * y) = ei_conj T x * ei_conj T y"
    "\<not> IsComplex T \<Longrightarrow> ei_conj T x = x"
  using assms by (simp_all add: conj_ok_def)

lemma pmul_direct:
  assumes "conj_ok T"
  shows "pmul T (c, cr) a ((if cr then ei_conj T alpha else alpha) * x) =
     alpha * ((if c then ei_conj T a else a) * (if cr then ei_conj T x else x))"
  by (simp add: pmul_def conj_okD [OF assms] mult_ac)

lemma pmul_transposed:
  "pmul T (c, cr) a x = (if c then ei_conj T a else a) * (if cr then ei_conj T x else x)"
  by (simp add: pmul_def)

lemma selfadjoint_coeff_below:
  assumes ok: "conj_ok T" and ik: "i < k"
  shows "selfadjoint_coeff T order uplo cl lhs lhsStride k i =
    (if (order = RowMajor) = (uplo = LowerTriangular)
     then (if IsComplex T \<and> (cl \<noteq> (\<not> order = RowMajor)) then ei_conj T (lhs ! (k * lhsStride + i))
           else lhs ! (k * lhsStride + i))
     else (if IsComplex T \<and> (cl \<noteq> (order = RowMajor)) then ei_conj T (lhs ! (i * lhsStride + k))
           else lhs ! (i * lhsStride + k)))"
  using ik
  by (cases order; cases uplo; cases cl; cases "IsComplex T";
      simp add: selfadjoint_coeff_def in_triangle_def lhs_index_def conj_okD [OF ok])

lemma selfadjoint_coeff_above:
  assumes ok: "conj_ok T" and kj: "k < j"
  shows "selfadjoint_coeff T order uplo cl lhs lhsStride k j =
    (if (order = RowMajor) = (uplo = LowerTriangular)
     then (if IsComplex T \<and> (cl \<noteq> (order = RowMajor)) then ei_conj T (lhs ! (j * lhsStride + k))
           else lhs ! (j * lhsStride + k))
     else (if IsComplex T \<and> (cl \<noteq> (\<not> order = RowMajor)) then ei_conj T (lhs ! (k * lhsStride + j))
           else lhs ! (k * lhsStride + j)))"
  using kj
  by (cases order; cases uplo; cases cl; cases "IsComplex T";
      simp add: selfadjoint_coeff_def in_triangle_def lhs_index_def conj_okD [OF ok])

lemma selfadjoint_coeff_diag:
  assumes ok: "conj_ok T" and d: "ei_conj T (lhs ! (k * lhsStride + k)) = lhs ! (k * lhsStride + k)"
  shows "selfadjoint_coeff T order uplo cl lhs lhsStride k k =
    (if IsComplex T \<and> (cl \<noteq> (order = RowMajor)) then ei_conj T (lhs ! (k * lhsStride + k))
     else lhs ! (k * lhsStride + k))"
  by (cases order; cases uplo; cases cl; cases "IsComplex T";
      simp add: selfadjoint_coeff_def in_triangle_def lhs_index_def d)

lemma sum_split_at:
  fixes g :: "nat \<Rightarrow> 'a::comm_monoid_add"
  assumes "k < sz"
  shows "(\<Sum>j<sz. g j) = g k + sum g {0..<k} + sum g {k + 1..<sz}"
proof -
  have "(\<Sum>j<sz. g j) = sum g {0..<k} + sum g {k..<sz}"
    using assms by (simp add: atLeast0LessThan [symmetric] sum.atLeastLessThan_concat)
  also have "sum g {k..<sz} = g k + sum g {k + 1..<sz}"
    using assms by (simp add: sum.atLeast_Suc_lessThan)
  finally show ?thesis by (simp add: add_ac)
qed

lemma kernel_delta_reference:
  fixes T :: "'a::comm_ring_1 scalar_traits"
  assumes ok: "conj_ok T" and diag: "real_diagonal T sz lhs lhsStride"
    and benign: "sz < 10 \<or> PacketSize T = 1 \<or> \<not> IsComplex T \<or>
      (\<not> cr \<and> (cl = (order = RowMajor)))"
  shows "kernel_delta T order uplo cl cr sz lhs lhsStride rhs resAddr alpha k =
    (if k < sz then alpha * (\<Sum>j<sz. selfadjoint_coeff T order uplo cl lhs lhsStride k j
                                      * operand_coeff T cr rhs j) else 0)"
proof -
  let ?R = "order = RowMajor"
  let ?FT = "?R = (uplo = LowerTriangular)"
  let ?c0 = "IsComplex T \<and> (cl \<noteq> ?R)"
  let ?c1 = "IsComplex T \<and> (cl \<noteq> (\<not> ?R))"
  let ?cjAlpha = "if cr then ei_conj T alpha else alpha"
  let ?y = "\<lambda>j. operand_coeff T cr rhs j"
  let ?A = "\<lambda>j i. lhs ! (j * lhsStride + i)"
  let ?cc = "\<lambda>b a. if b then ei_conj T a else a"
  let ?co = "\<lambda>j. selfadjoint_coeff T order uplo cl lhs lhsStride k j"
  have b: "sz < 10 \<or> PacketSize T = 1 \<or>
      (\<forall>a t. pmul T (?c0, cr) a t = t * a \<and> pmul T (?c1, cr) a t = ei_conj T a * t)"
    using benign conj_okD(3) [OF ok] by (auto simp: pmul_def mult.commute)
  have "kernel_delta T order uplo cl cr sz lhs lhsStride rhs resAddr alpha k =
      (\<Sum>j<sz. column_delta T ?FT (?c0, cr) (?c1, cr) sz lhs lhsStride rhs alpha ?cjAlpha j k)"
    unfolding kernel_delta_def Let_def by (rule columns_delta_columns [OF b])
  also have "\<dots> = (if k < sz then
       pmul T (?c0, cr) (?A k k) (?cjAlpha * rhs ! k)
       + alpha * (\<Sum>i = (if ?FT then 0 else k + 1)..<(if ?FT then k else sz).
                     pmul T (?c1, cr) (?A k i) (rhs ! i))
       + (\<Sum>j = (if ?FT then k + 1 else 0)..<(if ?FT then sz else k).
             pmul T (?c0, cr) (?A j k) (?cjAlpha * rhs ! j))
     else 0)"
    by (rule sum_column_delta)
  also have "\<dots> = (if k < sz then alpha * (\<Sum>j<sz. ?co j * ?y j) else 0)"
  proof (cases "k < sz")
    case False
    then show ?thesis by simp
  next
    case k: True
    then have dk: "ei_conj T (?A k k) = ?A k k" using diag by (simp add: real_diagonal_def)
    have t1: "pmul T (?c0, cr) (?A k k) (?cjAlpha * rhs ! k) = alpha * (?co k * ?y k)"
      unfolding pmul_direct [OF ok] selfadjoint_coeff_diag [OF ok dk] operand_coeff_def by (rule refl)
    show ?thesis
    proof (cases ?FT)
      case FT: True
      have t2: "(\<Sum>i = 0..<k. pmul T (?c1, cr) (?A k i) (rhs ! i)) = (\<Sum>i = 0..<k. ?co i * ?y i)"
        by (rule sum.cong [OF refl])
           (simp add: pmul_transposed selfadjoint_coeff_below [OF ok] operand_coeff_def FT)
      have t3: "(\<Sum>j = k + 1..<sz. pmul T (?c0, cr) (?A j k) (?cjAlpha * rhs ! j)) =
           alpha * (\<Sum>j = k + 1..<sz. ?co j * ?y j)"
        unfolding sum_distrib_left
        by (rule sum.cong [OF refl])
           (simp add: pmul_direct [OF ok] selfadjoint_coeff_above [OF ok] operand_coeff_def FT)
      show ?thesis
        unfolding sum_split_at [OF k, of "\<lambda>j. ?co j * ?y j"]
        using k FT t1 t2 t3 by (simp add: algebra_simps)
    next
      case FT: False
      have t2: "(\<Sum>i = k + 1..<sz. pmul T (?c1, cr) (?A k i) (rhs ! i)) = (\<Sum>i = k + 1..<sz. ?co i * ?y i)"
        by (rule sum.cong [OF refl])
           (simp add: pmul_transposed selfadjoint_coeff_above [OF ok] operand_coeff_def FT)
      have t3: "(\<Sum>j = 0..<k. pmul T (?c0, cr) (?A j k) (?cjAlpha * rhs ! j)) =
           alpha * (\<Sum>j = 0..<k. ?co j * ?y j)"
        unfolding sum_distrib_left
        by (rule sum.cong [OF refl])
           (simp add: pmul_direct [OF ok] selfadjoint_coeff_below [OF ok] operand_coeff_def FT)
      show ?thesis
        unfolding sum_split_at [OF k, of "\<lambda>j. ?co j * ?y j"]
        using k FT t1 t2 t3 by (simp add: algebra_simps)
    qed
  qed
  finally show ?thesis .
qed

subsection \<open>The reference result, and sizes below the first blocked iteration\<close>

lemma acc_reference:
  fixes T :: "'a::comm_ring_1 scalar_traits"
  assumes "conj_ok T" "real_diagonal T sz lhs lhsStride"
    and "sz < 10 \<or> PacketSize T = 1 \<or> \<not> IsComplex T \<or> (\<not> cr \<and> (cl = (order = RowMajor)))"
  shows "acc res (kernel_delta T order uplo cl cr sz lhs lhsStride rhs resAddr alpha) =
         dense_reference T order uplo cl cr sz lhs lhsStride rhs res alpha"
  by (rule nth_equalityI) (simp_all add: dense_reference_def kernel_delta_reference [OF assms])

lemma kernel_matches_reference:
  fixes T :: "'a::comm_ring_1 scalar_traits"
  assumes ok: "valid_call T sz lhs lhsStride rhs' rhsIncr res"
    and cj: "conj_ok T" and diag: "real_diagonal T sz lhs lhsStride"
    and benign: "sz < 10 \<or> PacketSize T = 1 \<or> \<not> IsComplex T \<or>
      (\<not> cr \<and> (cl = (order = RowMajor)))"
  shows "ei_product_selfadjoint_vector T order uplo cl cr sz lhs lhsStride rhs' rhsIncr res resAddr alpha =
           Some (dense_reference T order uplo cl cr sz lhs lhsStride (operand sz rhs' rhsIncr) res alpha,
                 scratch_trace sz rhsIncr)"
  using kernel_acc [OF ok, of order uplo cl cr resAddr alpha]
    acc_reference [OF cj diag benign, of res uplo "operand sz rhs' rhsIncr" resAddr alpha]
  by simp



subsection \<open>Conjugation flags and layouts, where the scalar head is harmless\<close>

text \<open>
  For sizes below 10, one lane, or a scalar type that is not complex, a conjugation flag
  acts as the materialized conjugate does, and two stored triangles of one logical matrix
  give the same outcome.
\<close>

lemma lhs_index_less:
  assumes "sz = 0 \<or> (sz - 1) * lhsStride + sz \<le> length (lhs :: 'a list)" "i < sz" "j < sz"
  shows "lhs_index order lhsStride i j < length lhs"
proof -
  have "i * lhsStride + sz \<le> length lhs" "j * lhsStride + sz \<le> length lhs"
    using assms by (auto intro: lhs_row_ok)
  then show ?thesis using assms(2,3) by (cases order) (simp_all add: lhs_index_def)
qed

lemma selfadjoint_coeff_map_conj:
  assumes "sz = 0 \<or> (sz - 1) * lhsStride + sz \<le> length lhs" "i < sz" "j < sz"
  shows "selfadjoint_coeff T order uplo False (map (ei_conj T) lhs) lhsStride i j =
         selfadjoint_coeff T order uplo True lhs lhsStride i j"
  using lhs_index_less [OF assms, of order] lhs_index_less [OF assms(1,3,2), of order]
  by (simp add: selfadjoint_coeff_def)

lemma dense_reference_cong:
  assumes "\<And>i j. i < sz \<Longrightarrow> j < sz \<Longrightarrow>
      selfadjoint_coeff T order uplo cl lhs lhsStride i j =
      selfadjoint_coeff T order' uplo' cl' lhs' lhsStride' i j"
    and "\<And>j. j < sz \<Longrightarrow> operand_coeff T cr rhs j = operand_coeff T cr' rhs' j"
  shows "dense_reference T order uplo cl cr sz lhs lhsStride rhs res alpha =
         dense_reference T order' uplo' cl' cr' sz lhs' lhsStride' rhs' res alpha"
  unfolding dense_reference_def
  by (intro map_cong refl if_cong arg_cong2 [where f = "(+)"] arg_cong2 [where f = "(*)"] sum.cong)
     (simp_all add: assms)

lemma operand_map:
  assumes "sz = 0 \<or> (sz - 1) * rhsIncr < length rhs'"
  shows "j < sz \<Longrightarrow> operand sz (map f rhs') rhsIncr ! j = f (operand sz rhs' rhsIncr ! j)"
proof -
  assume j: "j < sz"
  have "j * rhsIncr \<le> (sz - 1) * rhsIncr" using j by (intro mult_le_mono1) simp
  moreover have "(sz - 1) * rhsIncr < length rhs'" using assms j by auto
  ultimately have "j * rhsIncr < length rhs'" by (rule le_less_trans)
  then show ?thesis using j by (cases "rhsIncr = 1") (simp_all add: operand_def)
qed

lemma conjugated_lhs_as_materialized:
  fixes T :: "'a::comm_ring_1 scalar_traits"
  assumes ok: "valid_call T sz lhs lhsStride rhs' rhsIncr res"
    and cj: "conj_ok T" and diag: "real_diagonal T sz lhs lhsStride"
    and benign: "sz < 10 \<or> PacketSize T = 1 \<or> \<not> IsComplex T"
  shows "ei_product_selfadjoint_vector T order uplo True cr sz lhs lhsStride rhs' rhsIncr res resAddr alpha =
         ei_product_selfadjoint_vector T order uplo False cr sz (map (ei_conj T) lhs) lhsStride
           rhs' rhsIncr res resAddr alpha"
proof -
  have l: "sz = 0 \<or> (sz - 1) * lhsStride + sz \<le> length lhs"
    using ok by (simp add: valid_call_def)
  have ok': "valid_call T sz (map (ei_conj T) lhs) lhsStride rhs' rhsIncr res"
    using ok by (simp add: valid_call_def)
  have diag': "real_diagonal T sz (map (ei_conj T) lhs) lhsStride"
    unfolding real_diagonal_def
  proof (intro allI impI)
    fix j assume j: "j < sz"
    then have "j * lhsStride + j < length lhs"
      using lhs_index_less [OF l j j, of RowMajor] by (simp add: lhs_index_def)
    moreover have "ei_conj T (lhs ! (j * lhsStride + j)) = lhs ! (j * lhsStride + j)"
      using diag j by (simp add: real_diagonal_def)
    ultimately show "ei_conj T (map (ei_conj T) lhs ! (j * lhsStride + j)) =
        map (ei_conj T) lhs ! (j * lhsStride + j)" by simp
  qed
  have b: "sz < 10 \<or> PacketSize T = 1 \<or> \<not> IsComplex T \<or> (\<not> cr \<and> (c = (order = RowMajor)))" for c
    using benign by auto
  have "dense_reference T order uplo True cr sz lhs lhsStride (operand sz rhs' rhsIncr) res alpha =
        dense_reference T order uplo False cr sz (map (ei_conj T) lhs) lhsStride
          (operand sz rhs' rhsIncr) res alpha"
    by (rule dense_reference_cong) (simp_all add: selfadjoint_coeff_map_conj [OF l])
  then show ?thesis
    using kernel_matches_reference [OF ok cj diag b]
      kernel_matches_reference [OF ok' cj diag' b]
    by simp
qed

lemma conjugated_rhs_as_materialized:
  fixes T :: "'a::comm_ring_1 scalar_traits"
  assumes ok: "valid_call T sz lhs lhsStride rhs' rhsIncr res"
    and cj: "conj_ok T" and diag: "real_diagonal T sz lhs lhsStride"
    and benign: "sz < 10 \<or> PacketSize T = 1 \<or> \<not> IsComplex T"
  shows "ei_product_selfadjoint_vector T order uplo cl True sz lhs lhsStride rhs' rhsIncr res resAddr alpha =
         ei_product_selfadjoint_vector T order uplo cl False sz lhs lhsStride
           (map (ei_conj T) rhs') rhsIncr res resAddr alpha"
proof -
  have r: "sz = 0 \<or> (sz - 1) * rhsIncr < length rhs'"
    using ok by (simp add: valid_call_def)
  have ok': "valid_call T sz lhs lhsStride (map (ei_conj T) rhs') rhsIncr res"
    using ok by (simp add: valid_call_def)
  have b: "sz < 10 \<or> PacketSize T = 1 \<or> \<not> IsComplex T \<or> (\<not> c \<and> (cl = (order = RowMajor)))" for c
    using benign by auto
  have "dense_reference T order uplo cl True sz lhs lhsStride (operand sz rhs' rhsIncr) res alpha =
        dense_reference T order uplo cl False sz lhs lhsStride
          (operand sz (map (ei_conj T) rhs') rhsIncr) res alpha"
    by (rule dense_reference_cong) (simp_all add: operand_coeff_def operand_map [OF r])
  then show ?thesis
    using kernel_matches_reference [OF ok cj diag b]
      kernel_matches_reference [OF ok' cj diag b]
    by simp
qed

lemma logical_matrix_nth:
  assumes "logical_matrix T order uplo sz lhs lhsStride = logical_matrix T order' uplo' sz lhs' lhsStride'"
    and "i < sz" "j < sz"
  shows "selfadjoint_coeff T order uplo False lhs lhsStride i j =
         selfadjoint_coeff T order' uplo' False lhs' lhsStride' i j"
proof -
  have "logical_matrix T order uplo sz lhs lhsStride ! i ! j =
        logical_matrix T order' uplo' sz lhs' lhsStride' ! i ! j"
    using assms(1) by simp
  then show ?thesis using assms(2,3) by (simp add: logical_matrix_def)
qed

lemma parametrizations_agree:
  fixes T :: "'a::comm_ring_1 scalar_traits"
  assumes ok: "valid_call T sz lhs lhsStride rhs' rhsIncr res"
    and ok': "valid_call T sz lhs' lhsStride' rhs' rhsIncr res"
    and cj: "conj_ok T"
    and diag: "real_diagonal T sz lhs lhsStride" and diag': "real_diagonal T sz lhs' lhsStride'"
    and same: "logical_matrix T order uplo sz lhs lhsStride = logical_matrix T order' uplo' sz lhs' lhsStride'"
    and benign: "sz < 10 \<or> PacketSize T = 1 \<or> \<not> IsComplex T"
  shows "ei_product_selfadjoint_vector T order uplo False cr sz lhs lhsStride rhs' rhsIncr res resAddr alpha =
         ei_product_selfadjoint_vector T order' uplo' False cr sz lhs' lhsStride' rhs' rhsIncr res resAddr alpha"
proof -
  have b: "sz < 10 \<or> PacketSize T = 1 \<or> \<not> IsComplex T \<or> (\<not> cr \<and> (False = (o' = RowMajor)))" for o'
    using benign by auto
  have "dense_reference T order uplo False cr sz lhs lhsStride (operand sz rhs' rhsIncr) res alpha =
        dense_reference T order' uplo' False cr sz lhs' lhsStride' (operand sz rhs' rhsIncr) res alpha"
    by (rule dense_reference_cong) (simp_all add: logical_matrix_nth [OF same])
  then show ?thesis
    using kernel_matches_reference [OF ok cj diag b]
      kernel_matches_reference [OF ok' cj diag' b]
    by simp
qed

subsection \<open>The wrapper and the reference\<close>

text \<open>
  Where the kernel agrees with the dense reference, the wrapper adds the product scaled by
  the plain factor \<open>alpha * lhs factor * rhs factor\<close>, the operand conjugated when it is
  flagged: the conjugate of the factor that the kernel takes (line 52) is undone by the
  conjugating product of its helpers.
\<close>

lemma wrapper_matches_reference:
  fixes T :: "'a::comm_ring_1 scalar_traits"
  assumes ok: "valid_call T (lhs_rows L) (lhs_coeffs L) (lhs_stride L)
                 (rhs_coeffs R) (rhs_incr R) (dst_coeffs dst)"
    and cj: "conj_ok T" and diag: "real_diagonal T (lhs_rows L) (lhs_coeffs L) (lhs_stride L)"
    and benign: "lhs_rows L < 10 \<or> PacketSize T = 1 \<or> \<not> IsComplex T \<or>
      (\<not> rhs_need_to_conjugate R \<and> (lhs_need_to_conjugate L = (lhs_order L = RowMajor)))"
    and dims: "dst_rows dst = lhs_rows L" "dst_cols dst = rhs_cols R" "dst_incr dst = 1"
  shows "map_sum id fst (scaleAndAddTo T uplo L R dst alpha) =
     Inr (dst\<lparr>dst_coeffs :=
            dense_reference T (lhs_order L) uplo (lhs_need_to_conjugate L) (rhs_need_to_conjugate R)
              (lhs_rows L) (lhs_coeffs L) (lhs_stride L)
              (operand (lhs_rows L) (rhs_coeffs R) (rhs_incr R)) (dst_coeffs dst)
              (alpha * lhs_scalar_factor L * rhs_scalar_factor R)\<rparr>)"
  unfolding scaleAndAddTo_def Let_def kernel_matches_reference [OF ok cj diag benign]
  using dims by simp

section \<open>The claims\<close>

text \<open>
  Claim C1 (the kernel computes \<open>res += alpha * A * x\<close>). The claim holds wherever the
  scalar head of lines 105-110 is harmless (lemma \<open>kernel_matches_reference\<close>), and its
  example evaluates to \<open>[3, 5, 5]\<close>. It fails for complex scalars with two lanes and an
  accumulator at an odd address: the head multiplies without the conjugate helpers that
  the tail of lines 129-134 uses. The evaluation below is at a 10x10 row-major,
  lower-stored Hermitian matrix whose only non-zero stored entry is \<open>A[8][0] = \<i>\<close>, the
  operand \<open>e\<^sub>8\<close> and \<open>alpha = 1\<close>: the kernel returns \<open>res[0] = \<i>\<close>, the dense reference
  is \<open>res[0] = conj(A[8][0]) = -\<i>\<close>; with one lane, or with the accumulator aligned, the
  kernel returns the reference.
\<close>

theorem head_loop_breaks_reference:
  "ei_product_selfadjoint_vector (complex_traits 2) RowMajor LowerTriangular False False
      10 (entry_at 100 80 \<i>) 10 (entry_at 10 8 1) 1 (replicate 10 0) 1 1
     = Some (entry_at 10 0 \<i>, [])
   \<and> dense_reference (complex_traits 2) RowMajor LowerTriangular False False
      10 (entry_at 100 80 \<i>) 10 (entry_at 10 8 1) (replicate 10 0) 1
     = entry_at 10 0 (- \<i>)
   \<and> ei_product_selfadjoint_vector (complex_traits 1) RowMajor LowerTriangular False False
      10 (entry_at 100 80 \<i>) 10 (entry_at 10 8 1) 1 (replicate 10 0) 1 1
     = Some (entry_at 10 0 (- \<i>), [])
   \<and> ei_product_selfadjoint_vector (complex_traits 2) RowMajor LowerTriangular False False
      10 (entry_at 100 80 \<i>) 10 (entry_at 10 8 1) 1 (replicate 10 0) 0 1
     = Some (entry_at 10 0 (- \<i>), [])
   \<and> ei_product_selfadjoint_vector (real_traits 4) RowMajor LowerTriangular False False
      3 [2, 7, 7, 1, 3, 7, 0, 1, 4 :: int] 3 [1, 1, 1] 1 [0, 0, 0] 0 1
     = Some ([3, 5, 5], [])"
  by code_simp

text \<open>
  Claim C2 (conjugation flags against materialized conjugates). The claim fails for
  complex scalars with two lanes and an accumulator at an odd address, by the same
  scalar head: with \<open>ConjugateLhs\<close> set on the row-major matrix of claim C1 the kernel
  returns \<open>res[0] = \<i>\<close>, and without flags on the conjugated entries it returns
  \<open>res[0] = -\<i>\<close>; with \<open>ConjugateRhs\<close> set on a column-major matrix with \<open>A[2][0] = 1\<close>
  and the operand \<open>\<i> e\<^sub>0\<close> it returns \<open>res[2] = \<i>\<close>, and without flags on the conjugated
  operand it returns \<open>res[2] = -\<i>\<close>.
\<close>

theorem head_loop_ignores_conjugation_flags:
  "ei_product_selfadjoint_vector (complex_traits 2) RowMajor LowerTriangular True False
      10 (entry_at 100 80 \<i>) 10 (entry_at 10 8 1) 1 (replicate 10 0) 1 1
     = Some (entry_at 10 0 \<i>, [])
   \<and> ei_product_selfadjoint_vector (complex_traits 2) RowMajor LowerTriangular False False
      10 (map cnj (entry_at 100 80 \<i>)) 10 (entry_at 10 8 1) 1 (replicate 10 0) 1 1
     = Some (entry_at 10 0 (- \<i>), [])
   \<and> ei_product_selfadjoint_vector (complex_traits 2) ColMajor LowerTriangular False True
      10 (entry_at 100 2 1) 10 (entry_at 10 0 \<i>) 1 (replicate 10 0) 1 1
     = Some (entry_at 10 2 \<i>, [])
   \<and> ei_product_selfadjoint_vector (complex_traits 2) ColMajor LowerTriangular False False
      10 (entry_at 100 2 1) 10 (map cnj (entry_at 10 0 \<i>)) 1 (replicate 10 0) 1 1
     = Some (entry_at 10 2 (- \<i>), [])"
  by code_simp

text \<open>
  Claim C3 (the four parametrizations agree). The claim fails for a Hermitian matrix
  with two lanes and an accumulator at an odd address, by the same scalar head: the
  row-major and the column-major lower-stored buffers below describe the same logical
  matrix (\<open>A[8][0] = \<i>\<close>, \<open>A[0][8] = -\<i>\<close>), and on the operand \<open>e\<^sub>8\<close> the row-major call
  returns \<open>res[0] = \<i>\<close> while the column-major call returns \<open>res[0] = -\<i>\<close>.
\<close>

theorem head_loop_breaks_layout_equivalence:
  "logical_matrix (complex_traits 2) RowMajor LowerTriangular 10 (entry_at 100 80 \<i>) 10
     = logical_matrix (complex_traits 2) ColMajor LowerTriangular 10 (entry_at 100 8 \<i>) 10
   \<and> ei_product_selfadjoint_vector (complex_traits 2) RowMajor LowerTriangular False False
      10 (entry_at 100 80 \<i>) 10 (entry_at 10 8 1) 1 (replicate 10 0) 1 1
     = Some (entry_at 10 0 \<i>, [])
   \<and> ei_product_selfadjoint_vector (complex_traits 2) ColMajor LowerTriangular False False
      10 (entry_at 100 8 \<i>) 10 (entry_at 10 8 1) 1 (replicate 10 0) 1 1
     = Some (entry_at 10 0 (- \<i>), [])"
  by code_simp

text \<open>
  Claim C4 (only the stored triangle is read). For every size and every setting of the
  flags, two matrix buffers of valid calls that agree on the stored triangle, diagonal
  included, and differ arbitrarily elsewhere give the same outcome of the kernel, for
  every scalar type, exact or rounded. A valid call has its row offsets within \<^verbatim>\<open>int\<close>,
  so that no offset wraps around into the other triangle.
\<close>

theorem reads_only_stored_triangle:
  fixes T :: "'a::{plus,times,zero} scalar_traits"
  assumes "valid_call T sz lhs lhsStride rhs' rhsIncr res"
    and "valid_call T sz lhs' lhsStride rhs' rhsIncr res"
    and "agree_on_triangle order uplo sz lhsStride lhs lhs'"
  shows "ei_product_selfadjoint_vector T order uplo cl cr sz lhs lhsStride rhs' rhsIncr res resAddr alpha =
         ei_product_selfadjoint_vector T order uplo cl cr sz lhs' lhsStride rhs' rhsIncr res resAddr alpha"
  using assms by (rule kernel_cong)

theorem reads_only_stored_triangle_witness:
  "valid_call (real_traits 4) 3 [2, 7, 7, 1, 3, 7, 0, 1, 4 :: int] 3 [1, 1, 1] 1 [0, 0, 0]
   \<and> valid_call (real_traits 4) 3 [2, 9, 8, 1, 3, 5, 0, 1, 4 :: int] 3 [1, 1, 1] 1 [0, 0, 0]
   \<and> agree_on_triangle RowMajor LowerTriangular 3 3
        [2, 7, 7, 1, 3, 7, 0, 1, 4 :: int] [2, 9, 8, 1, 3, 5, 0, 1, 4]
   \<and> ei_product_selfadjoint_vector (real_traits 4) RowMajor LowerTriangular False False
        3 [2, 7, 7, 1, 3, 7, 0, 1, 4 :: int] 3 [1, 1, 1] 1 [0, 0, 0] 0 1 =
      ei_product_selfadjoint_vector (real_traits 4) RowMajor LowerTriangular False False
        3 [2, 9, 8, 1, 3, 5, 0, 1, 4] 3 [1, 1, 1] 1 [0, 0, 0] 0 1"
proof -
  have v: "valid_call (real_traits 4) 3 [2, 7, 7, 1, 3, 7, 0, 1, 4 :: int] 3 [1, 1, 1] 1 [0, 0, 0]"
    by (simp add: valid_call_def real_traits_def)
  have v': "valid_call (real_traits 4) 3 [2, 9, 8, 1, 3, 5, 0, 1, 4 :: int] 3 [1, 1, 1] 1 [0, 0, 0]"
    by (simp add: valid_call_def real_traits_def)
  have a: "agree_on_triangle RowMajor LowerTriangular 3 3
      [2, 7, 7, 1, 3, 7, 0, 1, 4 :: int] [2, 9, 8, 1, 3, 5, 0, 1, 4]"
    unfolding agree_on_triangle_def in_triangle_def lhs_index_def
    by (simp add: numeral_3_eq_3 less_Suc_eq)
  show ?thesis
    using v v' a reads_only_stored_triangle [OF v v' a, of False False 0 1] by simp
qed



text \<open>
  Claim C6 (non-unit operand stride). For every valid call with operand stride 2, the
  kernel returns the same accumulator as the call with stride 1 on the de-interleaved
  values; the strided call allocates the scratch buffer once and releases it before it
  returns, and the contiguous call allocates nothing, for every scalar type, exact or
  rounded.
\<close>

theorem strided_operand_matches_contiguous:
  fixes T :: "'a::{plus,times,zero} scalar_traits"
  assumes ok: "valid_call T sz lhs lhsStride rhs' 2 res"
  shows "\<exists>r. ei_product_selfadjoint_vector T order uplo cl cr
            sz lhs lhsStride rhs' 2 res resAddr alpha = Some (r, [StackNew sz, StackDelete sz])
        \<and> ei_product_selfadjoint_vector T order uplo cl cr
            sz lhs lhsStride (deinterleaved sz rhs') 1 res resAddr alpha = Some (r, [])"
proof -
  have ok1: "valid_call T sz lhs lhsStride (deinterleaved sz rhs') 1 res"
    using ok by (auto simp: valid_call_def deinterleaved_def)
  have op: "sz = 0 \<or> (sz - 1) * 2 < length rhs'"
    using ok by (simp add: valid_call_def)
  obtain r where k1: "ei_product_selfadjoint_vector T order uplo cl cr
      sz lhs lhsStride (deinterleaved sz rhs') 1 res resAddr alpha = Some (r, scratch_trace sz 1)"
    using kernel_returns [OF ok1, of order uplo cl cr resAddr alpha] by blast
  have k2: "ei_product_selfadjoint_vector T order uplo cl cr
      sz lhs lhsStride rhs' 2 res resAddr alpha = Some (r, [StackNew sz, StackDelete sz])"
    using strided_call_any_scalar [OF op, of T order uplo cl cr lhs lhsStride res resAddr alpha] k1
    unfolding deinterleaved_def by simp
  show ?thesis using k1 k2 by (simp add: scratch_trace_def)
qed

theorem strided_operand_matches_contiguous_witness:
  "valid_call (real_traits 4) 3 [2, 7, 7, 1, 3, 7, 0, 1, 4 :: int] 3 [1, 9, 1, 9, 1] 2 [0, 0, 0]
   \<and> deinterleaved 3 [1, 9, 1, 9, 1 :: int] = [1, 1, 1]
   \<and> (\<exists>r. ei_product_selfadjoint_vector (real_traits 4) RowMajor LowerTriangular False False
            3 [2, 7, 7, 1, 3, 7, 0, 1, 4 :: int] 3 [1, 9, 1, 9, 1] 2 [0, 0, 0] 0 1
              = Some (r, [StackNew 3, StackDelete 3])
        \<and> ei_product_selfadjoint_vector (real_traits 4) RowMajor LowerTriangular False False
            3 [2, 7, 7, 1, 3, 7, 0, 1, 4] 3 [1, 1, 1] 1 [0, 0, 0] 0 1 = Some (r, []))"
proof -
  have v: "valid_call (real_traits 4) 3 [2, 7, 7, 1, 3, 7, 0, 1, 4 :: int] 3 [1, 9, 1, 9, 1] 2 [0, 0, 0]"
    by (simp add: valid_call_def real_traits_def)
  have d: "deinterleaved 3 [1, 9, 1, 9, 1 :: int] = [1, 1, 1]"
    by (simp add: deinterleaved_def upt_rec)
  show ?thesis
    using v d strided_operand_matches_contiguous [OF v, of RowMajor LowerTriangular False False 0 1]
    by simp
qed




text \<open>
  Claim C8 as the spec states it, for every matrix and operand, fails for \<^verbatim>\<open>double\<close>:
  the transposed sum \<open>t2\<close> of line 148 does not depend on \<open>alpha\<close>, and when it overflows
  line 150 adds \<open>0 * inf\<close>, a NaN. Row-major, lower, size 2, stored entries \<open>A[0][0] = 1\<close>,
  \<open>A[1][0] = 2^1023\<close>, \<open>A[1][1] = 1\<close>, \<open>x = [2, 1]\<close>, \<open>res = [5, 7]\<close>, all finite, and
  \<open>alpha = 0\<close>: the kernel returns \<open>[5, NaN]\<close>.
\<close>

theorem alpha_zero_overflow_gives_nan:
  "valid_call (real_traits 2) 2 [dbl 1 0, dbl 0 0, dbl 1 1023, dbl 1 0] 2 [dbl 2 0, dbl 1 0] 1
      [dbl 5 0, dbl 7 0]
   \<and> map_option fst (ei_product_selfadjoint_vector (real_traits 2) RowMajor LowerTriangular
        False False 2 [dbl 1 0, dbl 0 0, dbl 1 1023, dbl 1 0] 2 [dbl 2 0, dbl 1 0] 1
        [dbl 5 0, dbl 7 0] 0 0)
      = Some [dbl 5 0, NaN]
   \<and> [dbl 5 0, NaN] \<noteq> [dbl 5 0, dbl 7 0]"
proof -
  have v: "valid_call (real_traits 2) 2 [dbl 1 0, dbl 0 0, dbl 1 1023, dbl 1 0] 2
      [dbl 2 0, dbl 1 0] 1 [dbl 5 0, dbl 7 0]"
    by (simp add: valid_call_def real_traits_def)
  have k: "map_option fst (ei_product_selfadjoint_vector (real_traits 2) RowMajor LowerTriangular
        False False 2 [dbl 1 0, dbl 0 0, dbl 1 1023, dbl 1 0] 2 [dbl 2 0, dbl 1 0] 1
        [dbl 5 0, dbl 7 0] 0 0)
      = Some [dbl 5 0, NaN]
   \<and> [dbl 5 0, NaN] \<noteq> [dbl 5 0, dbl 7 0]"
    by code_simp
  show ?thesis by (rule conjI [OF v k])
qed

text \<open>
  Claim C8, amended (scale factor zero). For every size, matrix, operand, flag setting and
  accumulator of a valid call on a scalar type whose arithmetic is exact (the sum and
  product of a commutative ring, where zero times anything is zero), the kernel called
  with \<open>alpha = 0\<close> returns and leaves every entry of the accumulator unchanged (the
  conjugate maps zero to zero).
\<close>

theorem alpha_zero_unchanged:
  fixes T :: "'a::comm_ring_1 scalar_traits"
  assumes "valid_call T sz lhs lhsStride rhs' rhsIncr res" and "ei_conj T 0 = 0"
  shows "map_option fst (ei_product_selfadjoint_vector T order uplo cl cr
            sz lhs lhsStride rhs' rhsIncr res resAddr 0) = Some res"
  using assms by (simp add: kernel_acc kernel_delta_zero)

theorem alpha_zero_unchanged_witness:
  "valid_call (complex_traits 2) 3 [2, 7, 7, \<i>, 3, 7, 0, 1, 4] 3 [1, 1, 1] 1 [5, 6, 7]
   \<and> ei_conj (complex_traits 2) 0 = 0
   \<and> map_option fst (ei_product_selfadjoint_vector (complex_traits 2) RowMajor LowerTriangular True True
        3 [2, 7, 7, \<i>, 3, 7, 0, 1, 4] 3 [1, 1, 1] 1 [5, 6, 7] 1 0) = Some [5, 6, 7]"
proof -
  have v: "valid_call (complex_traits 2) 3 [2, 7, 7, \<i>, 3, 7, 0, 1, 4] 3 [1, 1, 1] 1 [5, 6, 7]"
    by (simp add: valid_call_def complex_traits_def)
  have c: "ei_conj (complex_traits 2) 0 = 0" by (simp add: complex_traits_def)
  show ?thesis using v c alpha_zero_unchanged [OF v c] by simp
qed




text \<open>
  Claim C10 (real scalars ignore the conjugation flags). For a real scalar type, whose
  conjugate is the identity, any two settings of \<open>ConjugateLhs\<close> and \<open>ConjugateRhs\<close>
  give the same outcome of the kernel on the same arguments, be it a result or a fault.
\<close>

theorem real_flags_irrelevant:
  "ei_product_selfadjoint_vector (real_traits P) order uplo cl cr
      sz lhs lhsStride rhs' rhsIncr res resAddr alpha =
   ei_product_selfadjoint_vector (real_traits P) order uplo cl' cr'
      sz lhs lhsStride rhs' rhsIncr res resAddr alpha"
proof -
  have a: "(if c then ei_conj (real_traits P) alpha else alpha) = alpha" for c
    by (simp add: real_traits_def)
  show ?thesis
    unfolding ei_product_selfadjoint_vector_def Let_def a
    by (subst product_columns_real [where cj0' = "(False, False)" and cj1' = "(False, False)"],
        subst (2) product_columns_real [where cj0' = "(False, False)" and cj1' = "(False, False)"])
       (rule refl)
qed

end
